theory Spec2Isabelle
  imports Complex_Main "HOL-Library.Product_Lexorder"
begin

text \<open>
  A model of the two notebooks of the repository: the contrastive decoder (both
  \<open>generate_next_token\<close> cells and \<open>calculate_vhead\<close>) and the class
  \<open>MultiHeadAttention\<close> (\<open>__init__\<close> and \<open>forward\<close>).

  Tensors are lists, nested once per dimension.  A finite entry is a real number; the
  special values of the floating-point types (the two infinities and not-a-number) are
  values of their own (type \<open>fval\<close>).

  The code computes in \<open>float32\<close>.  How the framework rounds a product, a logarithm, an
  exponential or a sum is not written in the notebooks, so the model takes the
  framework's operations as a parameter: a record of operations (\<open>torch_ops\<close> for the
  decoder, \<open>attn_ops\<close> for the attention module) that every function of the model
  receives and calls where the source calls the framework.  What is proved for every such
  record holds for the operations of \<open>float32\<close>; where a proof needs a fact about the
  operations, the fact is a stated hypothesis (\<open>framework_contract\<close>, \<open>attn_contract\<close>).
  Two instances are given: the operations of the real numbers (\<open>exact_ops\<close>, and the
  definitions without the suffix \<open>_fp\<close>, which are this instance written out), and
  operations that follow the floating-point standard on the special values and overflow
  at the range of \<open>float32\<close> (\<open>ieee_ops\<close>).
\<close>

section \<open>Errors\<close>

text \<open>
  The exceptions the modelled code can raise.  A \<open>TypeError\<close> carries the reason the
  interpreter gives when it binds the arguments of a call.
\<close>

datatype bind_error =
    UnexpectedKeyword string
  | MultipleValues string
  | MissingArgument string
  | TooManyPositional

datatype py_error =
    AssertionError
  | ZeroDivisionError
  | TypeError bind_error
  | RuntimeError
  | IndexError

section \<open>The attention module: construction\<close>

subsection \<open>Binding the arguments of a call\<close>

text \<open>
  Python binds the positional arguments to the parameters from the left, then each keyword
  argument to the parameter of that name, and raises \<open>TypeError\<close> when a keyword names
  no parameter, when a parameter gets two values, or when a parameter without a default
  is left unbound.  All of this happens before the body of the callee runs.
\<close>

fun bind_positional :: "string list \<Rightarrow> int list \<Rightarrow> py_error + (string \<times> int) list" where
  "bind_positional ps [] = Inr []"
| "bind_positional [] (a # as) = Inl (TypeError TooManyPositional)"
| "bind_positional (p # ps) (a # as) =
     (case bind_positional ps as of
        Inl e \<Rightarrow> Inl e
      | Inr bs \<Rightarrow> Inr ((p, a) # bs))"

fun bind_keywords ::
  "string list \<Rightarrow> (string \<times> int) list \<Rightarrow> (string \<times> int) list \<Rightarrow> py_error + (string \<times> int) list"
where
  "bind_keywords ps bound [] = Inr bound"
| "bind_keywords ps bound ((k, v) # kws) =
     (if k \<notin> set ps then Inl (TypeError (UnexpectedKeyword k))
      else if k \<in> fst ` set bound then Inl (TypeError (MultipleValues k))
      else bind_keywords ps (bound @ [(k, v)]) kws)"

fun check_required :: "string list \<Rightarrow> (string \<times> int) list \<Rightarrow> py_error + unit" where
  "check_required [] bound = Inr ()"
| "check_required (r # rs) bound =
     (if r \<in> fst ` set bound then check_required rs bound
      else Inl (TypeError (MissingArgument r)))"

definition bind_args ::
  "string list \<Rightarrow> string list \<Rightarrow> int list \<Rightarrow> (string \<times> int) list \<Rightarrow> py_error + (string \<times> int) list"
where
  "bind_args params required args kwargs =
     (case bind_positional params args of
        Inl e \<Rightarrow> Inl e
      | Inr pos \<Rightarrow>
          (case bind_keywords params pos kwargs of
             Inl e \<Rightarrow> Inl e
           | Inr bound \<Rightarrow>
               (case check_required required bound of
                  Inl e \<Rightarrow> Inl e
                | Inr _ \<Rightarrow> Inr bound)))"

subsection \<open>The linear layer of the framework\<close>

text \<open>
  \<open>nn.Linear\<close> belongs to the framework, not to the repository.  Its signature is
  \<open>Linear(in_features, out_features, bias=True, device=None, dtype=None)\<close>; what its body
  does with the two sizes is the parameter \<open>mk\<close>, which may itself fail.
\<close>

definition Linear_params :: "string list" where
  "Linear_params = [''in_features'', ''out_features'', ''bias'', ''device'', ''dtype'']"

definition Linear_required :: "string list" where
  "Linear_required = [''in_features'', ''out_features'']"

definition nn_Linear ::
  "(int \<Rightarrow> int \<Rightarrow> py_error + 'lin) \<Rightarrow> int list \<Rightarrow> (string \<times> int) list \<Rightarrow> py_error + 'lin"
where
  "nn_Linear mk args kwargs =
     (case bind_args Linear_params Linear_required args kwargs of
        Inl e \<Rightarrow> Inl e
      | Inr bound \<Rightarrow>
          (case (map_of bound ''in_features'', map_of bound ''out_features'') of
             (Some n_in, Some n_out) \<Rightarrow> mk n_in n_out
           | _ \<Rightarrow> Inl (TypeError (MissingArgument ''in_features''))))"

subsection \<open>The constructor\<close>

text \<open>
  The fields of a \<open>MultiHeadAttention\<close> object.  The projections are called
  \<open>query\<close>, \<open>key\<close> and \<open>value\<close> in the source; \<open>value\<close> is a reserved word here, so the
  three fields carry the suffix \<open>_proj\<close>.
\<close>

record 'lin MultiHeadAttention =
  hidden_size :: int
  num_heads :: int
  head_dim :: int
  query_proj :: 'lin
  key_proj :: 'lin
  value_proj :: 'lin
  fc_out :: 'lin
  scale :: real

text \<open>
  \<open>__init__\<close>, statement by statement: the assertion (whose \<open>%\<close> raises
  \<open>ZeroDivisionError\<close> for zero heads), the floor division, the four linear layers in
  the order of the source, with the keywords exactly as the source spells them, and the
  scale.
\<close>

definition MultiHeadAttention_init ::
  "(int \<Rightarrow> int \<Rightarrow> py_error + 'lin) \<Rightarrow> int \<Rightarrow> int \<Rightarrow> py_error + 'lin MultiHeadAttention"
where
  "MultiHeadAttention_init mk hidden_size_arg num_heads_arg =
     (if num_heads_arg = 0 then Inl ZeroDivisionError
      else if hidden_size_arg mod num_heads_arg \<noteq> 0 then Inl AssertionError
      else
        let hd = hidden_size_arg div num_heads_arg in
        case nn_Linear mk []
               [(''in_features'', hidden_size_arg), (''out_features'', hidden_size_arg)] of
          Inl e \<Rightarrow> Inl e
        | Inr q \<Rightarrow>
        case nn_Linear mk []
               [(''in_features'', hidden_size_arg), (''out_features'', hidden_size_arg)] of
          Inl e \<Rightarrow> Inl e
        | Inr k \<Rightarrow>
        case nn_Linear mk []
               [(''in_feautures'', hidden_size_arg), (''out_features'', hidden_size_arg)] of
          Inl e \<Rightarrow> Inl e
        | Inr v \<Rightarrow>
        case nn_Linear mk [hidden_size_arg, hidden_size_arg] [] of
          Inl e \<Rightarrow> Inl e
        | Inr fc \<Rightarrow>
            Inr \<lparr> hidden_size = hidden_size_arg, num_heads = num_heads_arg, head_dim = hd,
                  query_proj = q, key_proj = k, value_proj = v, fc_out = fc,
                  scale = sqrt (real_of_int hd) \<rparr>)"

section \<open>Values of a score tensor\<close>

text \<open>
  An entry of a tensor of scores: a real number, one of the two infinities, or
  not-a-number.  \<open>torch.log\<close> of a probability is minus infinity at 0; the difference of
  two such logarithms follows the rules of the floating-point standard for the special
  values; \<open>exp\<close> of minus infinity is 0.
\<close>

datatype fval = NegInf | Fin real | PosInf | NaN

definition torch_log :: "real \<Rightarrow> fval" where
  "torch_log x = (if x < 0 then NaN else if x = 0 then NegInf else Fin (ln x))"

fun fsub :: "fval \<Rightarrow> fval \<Rightarrow> fval" where
  "fsub NaN y = NaN"
| "fsub x NaN = NaN"
| "fsub (Fin a) (Fin b) = Fin (a - b)"
| "fsub (Fin a) NegInf = PosInf"
| "fsub (Fin a) PosInf = NegInf"
| "fsub NegInf NegInf = NaN"
| "fsub NegInf y = NegInf"
| "fsub PosInf PosInf = NaN"
| "fsub PosInf y = PosInf"

text \<open>
  \<open>fexp\<close> is only applied to entries that are finite or minus infinity; \<open>softmax_scores\<close>
  handles the other two values before it.
\<close>

fun fexp :: "fval \<Rightarrow> real" where
  "fexp (Fin x) = exp x"
| "fexp v = 0"

section \<open>Softmax\<close>

text \<open>
  \<open>F.softmax(logits, dim=-1)\<close> on finite logits, in real arithmetic.  Subtracting the
  largest logit first, as the framework does for stability, does not change the quotient.
\<close>

definition softmax :: "real list \<Rightarrow> real list" where
  "softmax logits = map (\<lambda>x. exp x / sum_list (map exp logits)) logits"

text \<open>
  \<open>F.softmax\<close> on a tensor that may hold special values, the finite entries in real
  arithmetic.  The result is \<open>None\<close> when
  every entry of the output is not-a-number: when the input holds not-a-number or plus
  infinity, and when it is not empty and holds minus infinity only.
\<close>

definition softmax_scores :: "fval list \<Rightarrow> real list option" where
  "softmax_scores xs =
     (if NaN \<in> set xs \<or> PosInf \<in> set xs then None
      else if xs \<noteq> [] \<and> (\<forall>x \<in> set xs. x = NegInf) then None
      else Some (map (\<lambda>x. fexp x / sum_list (map fexp xs)) xs))"

section \<open>The contrastive decoder\<close>

subsection \<open>The plausibility mask\<close>

text \<open>\<open>torch.max\<close> of a one-dimensional tensor; it raises on an empty one.\<close>

fun torch_max :: "real list \<Rightarrow> py_error + real" where
  "torch_max [] = Inl RuntimeError"
| "torch_max (x # xs) = Inr (fold max xs x)"

text \<open>
  \<open>calculate_vhead(expert_probs, alpha)\<close>:
  \<^verbatim>\<open>mask = expert_probs >= (alpha * torch.max(expert_probs))\<close>,
  with the product of the real numbers.
\<close>

definition calculate_vhead :: "real list \<Rightarrow> real \<Rightarrow> py_error + bool list" where
  "calculate_vhead expert_probs alpha =
     (case torch_max expert_probs of
        Inl e \<Rightarrow> Inl e
      | Inr m \<Rightarrow> Inr (map (\<lambda>p. p \<ge> alpha * m) expert_probs))"

subsection \<open>Indexing with a boolean mask\<close>

text \<open>
  \<open>t[mask]\<close> reads the entries of \<open>t\<close> at the true positions of \<open>mask\<close>, in order, and
  raises \<open>IndexError\<close> when the shapes differ.  \<open>t[mask] = values\<close> writes \<open>values\<close>, in
  order, to the true positions.  \<open>t[mask] = c\<close> writes the scalar \<open>c\<close> to them.
\<close>

fun masked_select :: "'a list \<Rightarrow> bool list \<Rightarrow> 'a list" where
  "masked_select (x # xs) (m # ms) = (if m then x # masked_select xs ms else masked_select xs ms)"
| "masked_select xs ms = []"

fun masked_put :: "'a list \<Rightarrow> bool list \<Rightarrow> 'a list \<Rightarrow> 'a list" where
  "masked_put (x # xs) (m # ms) vs =
     (if m then (case vs of v # vs' \<Rightarrow> v # masked_put xs ms vs' | [] \<Rightarrow> x # masked_put xs ms [])
      else x # masked_put xs ms vs)"
| "masked_put xs ms vs = xs"

definition index_mask :: "'a list \<Rightarrow> bool list \<Rightarrow> py_error + 'a list" where
  "index_mask xs msk = (if length msk \<noteq> length xs then Inl IndexError else Inr (masked_select xs msk))"

definition masked_fill :: "'a list \<Rightarrow> bool list \<Rightarrow> 'a \<Rightarrow> 'a list" where
  "masked_fill xs msk v = map (\<lambda>(x, m). if m then v else x) (zip xs msk)"

subsection \<open>The contrastive scores\<close>

text \<open>
  The adaptive cell, from the mask to the scores, in real arithmetic:
  \<^verbatim>\<open>
  plausible_mask = calculate_vhead(expert_probs, alpha)
  contrastive_logits = torch.log(expert_probs)
  amateur_penalty = torch.log(amateur_probs)
  contrastive_logits[plausible_mask] -= amateur_penalty[plausible_mask]
  contrastive_logits[~plausible_mask] = float('-inf')
  \<close>
  The augmented assignment reads \<open>contrastive_logits[plausible_mask]\<close>, subtracts and
  writes the result back to the same positions.
\<close>

definition contrastive_logits_adaptive :: "real list \<Rightarrow> real list \<Rightarrow> real \<Rightarrow> py_error + fval list" where
  "contrastive_logits_adaptive expert_probs amateur_probs alpha =
     (case calculate_vhead expert_probs alpha of
        Inl e \<Rightarrow> Inl e
      | Inr plausible_mask \<Rightarrow>
          let contrastive_logits = map torch_log expert_probs;
              amateur_penalty = map torch_log amateur_probs
          in case index_mask amateur_penalty plausible_mask of
               Inl e \<Rightarrow> Inl e
             | Inr penalty \<Rightarrow>
                 let selected = masked_select contrastive_logits plausible_mask;
                     contrastive_logits = masked_put contrastive_logits plausible_mask (map2 fsub selected penalty);
                     contrastive_logits = masked_fill contrastive_logits (map Not plausible_mask) NegInf
                 in Inr contrastive_logits)"

text \<open>
  The cell without the mask:
  \<^verbatim>\<open>contrastive_logits = torch.log(expert_probs) - torch.log(amateur_probs)\<close>.
  The subtraction broadcasts a tensor of one entry and raises on any other mismatch.
\<close>

definition broadcast_sub :: "fval list \<Rightarrow> fval list \<Rightarrow> py_error + fval list" where
  "broadcast_sub xs ys =
     (if length xs = length ys then Inr (map2 fsub xs ys)
      else if length ys = 1 then Inr (map (\<lambda>x. fsub x (hd ys)) xs)
      else if length xs = 1 then Inr (map (\<lambda>y. fsub (hd xs) y) ys)
      else Inl RuntimeError)"

definition contrastive_logits_plain :: "real list \<Rightarrow> real list \<Rightarrow> py_error + fval list" where
  "contrastive_logits_plain expert_probs amateur_probs =
     broadcast_sub (map torch_log expert_probs) (map torch_log amateur_probs)"

subsection \<open>Top-k and sampling\<close>

text \<open>
  \<open>torch.topk\<close> orders the entries by value, not-a-number counting as the largest, and
  returns the \<open>k\<close> largest with their indices; it raises when the tensor has fewer than
  \<open>k\<close> entries.  Which of several equal entries it returns first is not specified by the
  framework; in \<open>topk\<close> the one with the larger index comes first.  The loops below do
  not depend on that choice: they call the operation \<open>op_topk\<close> of the framework record.
\<close>

fun topk_key :: "fval \<Rightarrow> nat \<times> real" where
  "topk_key NegInf = (0, 0)"
| "topk_key (Fin x) = (1, x)"
| "topk_key PosInf = (2, 0)"
| "topk_key NaN = (3, 0)"

definition ranked :: "fval list \<Rightarrow> nat \<Rightarrow> (fval \<times> nat) list" where
  "ranked xs k = take k (rev (sort_key (\<lambda>(v, i). topk_key v) (zip xs [0 ..< length xs])))"

definition topk :: "fval list \<Rightarrow> nat \<Rightarrow> py_error + (fval list \<times> nat list)" where
  "topk xs k =
     (if k > length xs then Inl RuntimeError
      else let r = ranked xs k in Inr (map fst r, map snd r))"

text \<open>
  \<open>torch.multinomial(probs, num_samples=1)\<close> draws an index with probability
  proportional to its weight, and raises when a weight is negative or not-a-number or
  when the weights sum to nothing.  The draw is random: the model returns every index the
  call can return, which are the indices of positive weight.
\<close>

definition multinomial :: "real list option \<Rightarrow> py_error + nat list" where
  "multinomial probs =
     (case probs of
        None \<Rightarrow> Inl RuntimeError
      | Some w \<Rightarrow>
          if (\<exists>p \<in> set w. p < 0) \<or> sum_list w \<le> 0 then Inl RuntimeError
          else Inr (filter (\<lambda>i. w ! i > 0) [0 ..< length w]))"

subsection \<open>The decoding loop\<close>

text \<open>
  An encoding is the list of token ids of one sequence.  The tokenizer is a global of the
  notebook; \<open>decode\<close> is \<open>tokenizer.decode\<close> and \<open>encode\<close> is the call
  \<open>tokenizer(text, return_tensors='pt')\<close>.  A scorer stands for
  \<open>model(**encoding).logits[0, -1, :]\<close>: the logits of the next token, or the error the
  call raises.
\<close>

type_synonym encoding = "nat list"

record tokenizer =
  decode :: "nat list \<Rightarrow> string"
  encode :: "string \<Rightarrow> encoding"

type_synonym scorer = "encoding \<Rightarrow> py_error + real list"

text \<open>The variables the loop carries: \<open>generated_tokens\<close> and \<open>encoding\<close>.\<close>

type_synonym loop_state = "nat list \<times> encoding"

text \<open>
  The second half of the loop body, the same in both cells, with \<open>topk\<close> and
  \<open>softmax_scores\<close>:
  \<^verbatim>\<open>
  topk_logits, topk_indices = torch.topk(contrastive_logits, k=50, dim=-1)
  topk_probs = F.softmax(topk_logits, dim=-1)
  sampled_index = torch.multinomial(topk_probs, num_samples=1)
  next_token = topk_indices[sampled_index]
  generated_tokens.append(next_token.item())
  text = tokenizer.decode(generated_tokens)
  encoding = tokenizer(text, return_tensors='pt')
  \<close>
  The result lists the state after the body for every index the draw can return.
\<close>

definition sample_and_append ::
  "tokenizer \<Rightarrow> fval list \<Rightarrow> nat list \<Rightarrow> py_error + loop_state list"
where
  "sample_and_append tk contrastive_logits generated_tokens =
     (case topk contrastive_logits 50 of
        Inl e \<Rightarrow> Inl e
      | Inr (topk_logits, topk_indices) \<Rightarrow>
          let topk_probs = softmax_scores topk_logits in
          case multinomial topk_probs of
            Inl e \<Rightarrow> Inl e
          | Inr draws \<Rightarrow>
              Inr (map (\<lambda>sampled_index.
                     let next_token = topk_indices ! sampled_index;
                         generated_tokens = generated_tokens @ [next_token];
                         text = decode tk generated_tokens
                     in (generated_tokens, encode tk text)) draws))"

subsection \<open>The operations of the framework\<close>

text \<open>
  The operations the two cells call on tensors of \<open>float32\<close>:
  \<^item> \<open>op_softmax\<close>: \<open>F.softmax(logits, dim=-1)\<close> on the logits of a scorer;
  \<^item> \<open>op_softmax_scores\<close>: \<open>F.softmax(topk_logits, dim=-1)\<close> on scores that may be
    infinite, \<open>None\<close> when the result is not-a-number;
  \<^item> \<open>op_log\<close>: \<open>torch.log\<close> of one entry;
  \<^item> \<open>op_sub\<close>: the subtraction of two entries;
  \<^item> \<open>op_mul\<close>: the product \<open>alpha * torch.max(expert_probs)\<close>, a rounded product in
    \<open>float32\<close>;
  \<^item> \<open>op_topk\<close>: \<open>torch.topk\<close>, whichever order it gives to equal entries.
  The comparison \<open>>=\<close> of two numbers is exact in every floating-point type.
\<close>

record torch_ops =
  op_softmax :: "real list \<Rightarrow> real list"
  op_softmax_scores :: "fval list \<Rightarrow> real list option"
  op_log :: "real \<Rightarrow> fval"
  op_sub :: "fval \<Rightarrow> fval \<Rightarrow> fval"
  op_mul :: "real \<Rightarrow> real \<Rightarrow> real"
  op_topk :: "fval list \<Rightarrow> nat \<Rightarrow> py_error + (fval list \<times> nat list)"

text \<open>The operations of the real numbers.\<close>

definition exact_ops :: torch_ops where
  "exact_ops =
     \<lparr> op_softmax = softmax, op_softmax_scores = softmax_scores, op_log = torch_log,
       op_sub = fsub, op_mul = (*), op_topk = topk \<rparr>"

text \<open>
  The functions of the two cells over the operations of the framework.  Each is the
  function of the same name above, with every call of the framework taken from the
  record.
\<close>

definition calculate_vhead_fp :: "torch_ops \<Rightarrow> real list \<Rightarrow> real \<Rightarrow> py_error + bool list" where
  "calculate_vhead_fp ops expert_probs alpha =
     (case torch_max expert_probs of
        Inl e \<Rightarrow> Inl e
      | Inr m \<Rightarrow> Inr (map (\<lambda>p. p \<ge> op_mul ops alpha m) expert_probs))"

definition contrastive_logits_adaptive_fp ::
  "torch_ops \<Rightarrow> real list \<Rightarrow> real list \<Rightarrow> real \<Rightarrow> py_error + fval list"
where
  "contrastive_logits_adaptive_fp ops expert_probs amateur_probs alpha =
     (case calculate_vhead_fp ops expert_probs alpha of
        Inl e \<Rightarrow> Inl e
      | Inr plausible_mask \<Rightarrow>
          let contrastive_logits = map (op_log ops) expert_probs;
              amateur_penalty = map (op_log ops) amateur_probs
          in case index_mask amateur_penalty plausible_mask of
               Inl e \<Rightarrow> Inl e
             | Inr penalty \<Rightarrow>
                 let selected = masked_select contrastive_logits plausible_mask;
                     contrastive_logits = masked_put contrastive_logits plausible_mask
                                            (map2 (op_sub ops) selected penalty);
                     contrastive_logits = masked_fill contrastive_logits (map Not plausible_mask) NegInf
                 in Inr contrastive_logits)"

definition broadcast_sub_fp :: "torch_ops \<Rightarrow> fval list \<Rightarrow> fval list \<Rightarrow> py_error + fval list" where
  "broadcast_sub_fp ops xs ys =
     (if length xs = length ys then Inr (map2 (op_sub ops) xs ys)
      else if length ys = 1 then Inr (map (\<lambda>x. op_sub ops x (hd ys)) xs)
      else if length xs = 1 then Inr (map (\<lambda>y. op_sub ops (hd xs) y) ys)
      else Inl RuntimeError)"

definition contrastive_logits_plain_fp :: "torch_ops \<Rightarrow> real list \<Rightarrow> real list \<Rightarrow> py_error + fval list" where
  "contrastive_logits_plain_fp ops expert_probs amateur_probs =
     broadcast_sub_fp ops (map (op_log ops) expert_probs) (map (op_log ops) amateur_probs)"

definition sample_and_append_fp ::
  "torch_ops \<Rightarrow> tokenizer \<Rightarrow> fval list \<Rightarrow> nat list \<Rightarrow> py_error + loop_state list"
where
  "sample_and_append_fp ops tk contrastive_logits generated_tokens =
     (case op_topk ops contrastive_logits 50 of
        Inl e \<Rightarrow> Inl e
      | Inr (topk_logits, topk_indices) \<Rightarrow>
          let topk_probs = op_softmax_scores ops topk_logits in
          case multinomial topk_probs of
            Inl e \<Rightarrow> Inl e
          | Inr draws \<Rightarrow>
              Inr (map (\<lambda>sampled_index.
                     let next_token = topk_indices ! sampled_index;
                         generated_tokens = generated_tokens @ [next_token];
                         text = decode tk generated_tokens
                     in (generated_tokens, encode tk text)) draws))"

text \<open>
  What the proofs about sampled tokens use of the framework: a softmax returns one weight
  per entry and no positive weight for an entry of minus infinity (\<open>exp\<close> of minus
  infinity is 0 in every floating-point type), and \<open>torch.topk\<close> returns positions of its
  input together with the values found there.
\<close>

definition framework_contract :: "torch_ops \<Rightarrow> bool" where
  "framework_contract ops \<longleftrightarrow>
     (\<forall>xs w. op_softmax_scores ops xs = Some w \<longrightarrow>
        length w = length xs \<and> (\<forall>j < length xs. xs ! j = NegInf \<longrightarrow> w ! j \<le> 0)) \<and>
     (\<forall>xs k vals idxs. op_topk ops xs k = Inr (vals, idxs) \<longrightarrow>
        length vals = length idxs \<and>
        (\<forall>j < length idxs. idxs ! j < length xs \<and> vals ! j = xs ! (idxs ! j)))"

text \<open>The loop body of the cell without the mask.\<close>

definition step_plain ::
  "torch_ops \<Rightarrow> tokenizer \<Rightarrow> scorer \<Rightarrow> scorer \<Rightarrow> loop_state \<Rightarrow> py_error + loop_state list"
where
  "step_plain ops tk expert_model amateur_model st =
     (case st of (generated_tokens, encoding) \<Rightarrow>
      case expert_model encoding of
        Inl e \<Rightarrow> Inl e
      | Inr expert_logits \<Rightarrow>
      case amateur_model encoding of
        Inl e \<Rightarrow> Inl e
      | Inr amateur_logits \<Rightarrow>
          let expert_probs = op_softmax ops expert_logits;
              amateur_probs = op_softmax ops amateur_logits
          in case contrastive_logits_plain_fp ops expert_probs amateur_probs of
               Inl e \<Rightarrow> Inl e
             | Inr contrastive_logits \<Rightarrow>
                 sample_and_append_fp ops tk contrastive_logits generated_tokens)"

text \<open>The loop body of the adaptive cell.\<close>

definition step_adaptive ::
  "torch_ops \<Rightarrow> tokenizer \<Rightarrow> scorer \<Rightarrow> scorer \<Rightarrow> real \<Rightarrow> loop_state \<Rightarrow> py_error + loop_state list"
where
  "step_adaptive ops tk expert_model amateur_model alpha st =
     (case st of (generated_tokens, encoding) \<Rightarrow>
      case expert_model encoding of
        Inl e \<Rightarrow> Inl e
      | Inr expert_logits \<Rightarrow>
      case amateur_model encoding of
        Inl e \<Rightarrow> Inl e
      | Inr amateur_logits \<Rightarrow>
          let expert_probs = op_softmax ops expert_logits;
              amateur_probs = op_softmax ops amateur_logits
          in case contrastive_logits_adaptive_fp ops expert_probs amateur_probs alpha of
               Inl e \<Rightarrow> Inl e
             | Inr contrastive_logits \<Rightarrow>
                 sample_and_append_fp ops tk contrastive_logits generated_tokens)"

text \<open>
  \<open>for _ in range(num_tokens)\<close>: every outcome of running the body as often as
  \<open>range(num_tokens)\<close> has elements, an error ending the run where it is raised.
  \<open>num_tokens\<close> is any integer; \<open>range\<close> of a negative number is empty.
\<close>

fun repeat_body ::
  "(loop_state \<Rightarrow> py_error + loop_state list) \<Rightarrow> nat \<Rightarrow> loop_state \<Rightarrow> (py_error + loop_state) list"
where
  "repeat_body body 0 st = [Inr st]"
| "repeat_body body (Suc n) st =
     (case body st of
        Inl e \<Rightarrow> [Inl e]
      | Inr nexts \<Rightarrow> concat (map (repeat_body body n) nexts))"

definition for_range ::
  "(loop_state \<Rightarrow> py_error + loop_state list) \<Rightarrow> int \<Rightarrow> loop_state \<Rightarrow> (py_error + loop_state) list"
where
  "for_range body num_tokens st = repeat_body body (nat num_tokens) st"

text \<open>
  The two cells.  \<open>generated_tokens\<close> starts as \<open>encoding['input_ids'][0].tolist()\<close>.
  The loops return the final state; the functions return what the source returns, the
  decoded text.  The second cell redefines the name \<open>generate_next_token\<close>, so the first
  carries the suffix \<open>_plain\<close> here.  The default of \<open>alpha\<close> is \<open>0.1\<close>.
\<close>

definition decoding_loop_plain ::
  "torch_ops \<Rightarrow> tokenizer \<Rightarrow> encoding \<Rightarrow> scorer \<Rightarrow> scorer \<Rightarrow> int \<Rightarrow> (py_error + loop_state) list"
where
  "decoding_loop_plain ops tk encoding expert_model amateur_model num_tokens =
     for_range (step_plain ops tk expert_model amateur_model) num_tokens (encoding, encoding)"

definition decoding_loop_adaptive ::
  "torch_ops \<Rightarrow> tokenizer \<Rightarrow> encoding \<Rightarrow> scorer \<Rightarrow> scorer \<Rightarrow> int \<Rightarrow> real \<Rightarrow> (py_error + loop_state) list"
where
  "decoding_loop_adaptive ops tk encoding expert_model amateur_model num_tokens alpha =
     for_range (step_adaptive ops tk expert_model amateur_model alpha) num_tokens (encoding, encoding)"

definition generate_next_token_plain ::
  "torch_ops \<Rightarrow> tokenizer \<Rightarrow> encoding \<Rightarrow> scorer \<Rightarrow> scorer \<Rightarrow> int \<Rightarrow> (py_error + string) list"
where
  "generate_next_token_plain ops tk encoding expert_model amateur_model num_tokens =
     map (map_sum id (\<lambda>(generated_tokens, enc). decode tk generated_tokens))
       (decoding_loop_plain ops tk encoding expert_model amateur_model num_tokens)"

definition generate_next_token ::
  "torch_ops \<Rightarrow> tokenizer \<Rightarrow> encoding \<Rightarrow> scorer \<Rightarrow> scorer \<Rightarrow> int \<Rightarrow> real \<Rightarrow> (py_error + string) list"
where
  "generate_next_token ops tk encoding expert_model amateur_model num_tokens alpha =
     map (map_sum id (\<lambda>(generated_tokens, enc). decode tk generated_tokens))
       (decoding_loop_adaptive ops tk encoding expert_model amateur_model num_tokens alpha)"

section \<open>The attention module: forward\<close>

text \<open>
  A linear layer \<open>y = x W\<^sup>T + b\<close>: \<open>weight\<close> has one row per output feature.
\<close>

record linear =
  weight :: "real list list"
  bias :: "real list"

definition dot :: "real list \<Rightarrow> real list \<Rightarrow> real" where
  "dot x y = sum_list (map2 (*) x y)"

definition linear_apply :: "linear \<Rightarrow> real list \<Rightarrow> real list" where
  "linear_apply l x = map2 (\<lambda>row b. dot x row + b) (weight l) (bias l)"

text \<open>
  The shapes \<open>forward\<close> is modelled on: a module whose fields are what \<open>__init__\<close>
  assigns (positive sizes, \<open>hidden_size = num_heads * head_dim\<close>, square layers, a
  positive scale), a query of shape \<open>(batch, q_len, hidden_size)\<close> with a batch that is not
  empty, and a key and a value of shape \<open>(batch, kv_len, hidden_size)\<close>.
\<close>

definition linear_ok :: "nat \<Rightarrow> linear \<Rightarrow> bool" where
  "linear_ok n l \<longleftrightarrow>
     length (weight l) = n \<and> length (bias l) = n \<and> list_all (\<lambda>row. length row = n) (weight l)"

definition is_tensor :: "nat \<Rightarrow> nat \<Rightarrow> nat \<Rightarrow> real list list list \<Rightarrow> bool" where
  "is_tensor B L D X \<longleftrightarrow>
     length X = B \<and> list_all (\<lambda>xb. length xb = L \<and> list_all (\<lambda>row. length row = D) xb) X"

definition forward_ok ::
  "linear MultiHeadAttention \<Rightarrow> real list list list \<Rightarrow> real list list list \<Rightarrow> real list list list \<Rightarrow> bool"
where
  "forward_ok self query key val \<longleftrightarrow>
     0 < num_heads self \<and> 0 < head_dim self \<and>
     hidden_size self = num_heads self * head_dim self \<and> 0 < scale self \<and>
     linear_ok (nat (hidden_size self)) (query_proj self) \<and>
     linear_ok (nat (hidden_size self)) (fc_out self) \<and>
     0 < length query \<and>
     is_tensor (length query) (length (hd query)) (nat (hidden_size self)) query \<and>
     is_tensor (length query) (length (hd key)) (nat (hidden_size self)) key \<and>
     is_tensor (length query) (length (hd key)) (nat (hidden_size self)) val"

text \<open>
  One head \<open>h\<close> at one query position, given the projected query row \<open>q\<close> and the
  projected keys and values of the batch entry:
  \<^item> \<open>view(batch_size, -1, num_heads, head_dim).transpose(1, 2)\<close> gives head \<open>h\<close> the
    entries \<open>h * head_dim\<close> to \<open>(h + 1) * head_dim - 1\<close> of every row;
  \<^item> \<open>scores = torch.matmul(Q, K.transpose(-2, -1)) / self.scale\<close>;
  \<^item> \<open>scores = scores.masked_fill(mask == False, float('-inf'))\<close> when a mask is given;
  \<^item> \<open>attn_weights = F.softmax(scores, dim=-1)\<close>;
  \<^item> \<open>attn_output = torch.matmul(attn_weights, V)\<close>.
  The result is \<open>None\<close> when the weights, and with them the output of the head, are
  not-a-number.
\<close>

definition attend_head ::
  "linear MultiHeadAttention \<Rightarrow> nat \<Rightarrow> real list \<Rightarrow> real list list \<Rightarrow> real list list \<Rightarrow>
     (nat \<Rightarrow> bool) option \<Rightarrow> real list option"
where
  "attend_head self h q K V mask_row =
     (let d = nat (head_dim self);
          qh = take d (drop (h * d) q);
          Kh = map (\<lambda>k. take d (drop (h * d) k)) K;
          Vh = map (\<lambda>v. take d (drop (h * d) v)) V;
          scores = map (\<lambda>k. dot qh k / scale self) Kh;
          scores = (case mask_row of
                      None \<Rightarrow> map Fin scores
                    | Some m \<Rightarrow> map (\<lambda>(j, s). if m j = False then NegInf else Fin s) (enumerate 0 scores));
          attn_weights = softmax_scores scores
      in map_option (\<lambda>w. map (\<lambda>c. sum_list (map2 (\<lambda>wj vj. wj * vj ! c) w Vh)) [0 ..< d]) attn_weights)"

text \<open>
  One query position: the heads side by side
  (\<open>attn_output.transpose(1, 2).contiguous().view(batch_size, -1, self.hidden_size)\<close>), then
  \<open>self.fc_out\<close>.  A head that is not-a-number makes the whole row so.
\<close>

definition attend_position ::
  "linear MultiHeadAttention \<Rightarrow> real list \<Rightarrow> real list list \<Rightarrow> real list list \<Rightarrow>
     (nat \<Rightarrow> (nat \<Rightarrow> bool) option) \<Rightarrow> real list option"
where
  "attend_position self q K V mask_rows =
     (let heads = map (\<lambda>h. attend_head self h q K V (mask_rows h)) [0 ..< nat (num_heads self)]
      in if list_all (\<lambda>r. r \<noteq> None) heads
         then Some (linear_apply (fc_out self) (concat (map the heads)))
         else None)"

text \<open>
  \<open>forward(self, query, key, value, mask=None)\<close>.  All three inputs go through
  \<open>self.query\<close>, as in the source:
  \<^verbatim>\<open>
  Q=self.query(query)
  K=self.query(key)
  V=self.query(value)
  \<close>
  The mask is given as it is after broadcasting to \<open>(batch, heads, q_len, kv_len)\<close>.  The
  third input is called \<open>val\<close>.  Outside the shapes of \<open>forward_ok\<close> the result is
  \<open>None\<close>: the model says nothing about such calls.
\<close>

definition forward ::
  "linear MultiHeadAttention \<Rightarrow> real list list list \<Rightarrow> real list list list \<Rightarrow> real list list list \<Rightarrow>
     (nat \<Rightarrow> nat \<Rightarrow> nat \<Rightarrow> nat \<Rightarrow> bool) option \<Rightarrow> real list option list list option"
where
  "forward self query key val msk =
     (if \<not> forward_ok self query key val then None
      else
        let Q = map (map (linear_apply (query_proj self))) query;
            K = map (map (linear_apply (query_proj self))) key;
            V = map (map (linear_apply (query_proj self))) val
        in Some (map (\<lambda>b. map (\<lambda>i. attend_position self (Q ! b ! i) (K ! b) (V ! b)
                                      (\<lambda>h. map_option (\<lambda>m. m b h i) msk))
                            [0 ..< length (Q ! b)])
                   [0 ..< length Q]))"

text \<open>
  The causal mask \<open>torch.tril(torch.ones((T, T))).bool()\<close>, broadcast over batch and heads.
\<close>

definition tril :: "nat \<Rightarrow> nat \<Rightarrow> nat \<Rightarrow> nat \<Rightarrow> bool" where
  "tril b h i j \<longleftrightarrow> j \<le> i"

section \<open>The attention module in floating point\<close>

text \<open>
  The operations \<open>forward\<close> calls on entries of \<open>float32\<close> tensors: product, sum of two
  entries, sum of a list of products (the accumulation inside \<open>torch.matmul\<close> and
  \<open>nn.Linear\<close>, in whatever order the framework adds), quotient, and \<open>F.softmax\<close> of one
  row of scores.  Entries are of type \<open>fval\<close>: a projection or a product that overflows is
  an infinity, and not-a-number propagates.
\<close>

record attn_ops =
  a_mul :: "fval \<Rightarrow> fval \<Rightarrow> fval"
  a_add :: "fval \<Rightarrow> fval \<Rightarrow> fval"
  a_sum :: "fval list \<Rightarrow> fval"
  a_div :: "fval \<Rightarrow> fval \<Rightarrow> fval"
  a_softmax :: "fval list \<Rightarrow> fval list"

fun is_finite :: "fval \<Rightarrow> bool" where
  "is_finite (Fin x) = True"
| "is_finite v = False"

text \<open>The functions of \<open>forward\<close> over these operations, on the same shapes as before.\<close>

definition linear_apply_fp :: "attn_ops \<Rightarrow> linear \<Rightarrow> fval list \<Rightarrow> fval list" where
  "linear_apply_fp ar l x =
     map2 (\<lambda>row b. a_add ar (a_sum ar (map2 (a_mul ar) x (map Fin row))) (Fin b)) (weight l) (bias l)"

definition is_tensor_fp :: "nat \<Rightarrow> nat \<Rightarrow> nat \<Rightarrow> fval list list list \<Rightarrow> bool" where
  "is_tensor_fp B L D X \<longleftrightarrow>
     length X = B \<and> list_all (\<lambda>xb. length xb = L \<and> list_all (\<lambda>row. length row = D) xb) X"

definition forward_ok_fp ::
  "linear MultiHeadAttention \<Rightarrow> fval list list list \<Rightarrow> fval list list list \<Rightarrow> fval list list list \<Rightarrow> bool"
where
  "forward_ok_fp self query key val \<longleftrightarrow>
     0 < num_heads self \<and> 0 < head_dim self \<and>
     hidden_size self = num_heads self * head_dim self \<and> 0 < scale self \<and>
     linear_ok (nat (hidden_size self)) (query_proj self) \<and>
     linear_ok (nat (hidden_size self)) (fc_out self) \<and>
     0 < length query \<and>
     is_tensor_fp (length query) (length (hd query)) (nat (hidden_size self)) query \<and>
     is_tensor_fp (length query) (length (hd key)) (nat (hidden_size self)) key \<and>
     is_tensor_fp (length query) (length (hd key)) (nat (hidden_size self)) val"

definition attend_head_fp ::
  "attn_ops \<Rightarrow> linear MultiHeadAttention \<Rightarrow> nat \<Rightarrow> fval list \<Rightarrow> fval list list \<Rightarrow> fval list list \<Rightarrow>
     (nat \<Rightarrow> bool) option \<Rightarrow> fval list"
where
  "attend_head_fp ar self h q K V mask_row =
     (let d = nat (head_dim self);
          qh = take d (drop (h * d) q);
          Kh = map (\<lambda>k. take d (drop (h * d) k)) K;
          Vh = map (\<lambda>v. take d (drop (h * d) v)) V;
          scores = map (\<lambda>k. a_div ar (a_sum ar (map2 (a_mul ar) qh k)) (Fin (scale self))) Kh;
          scores = (case mask_row of
                      None \<Rightarrow> scores
                    | Some m \<Rightarrow> map (\<lambda>(j, s). if m j = False then NegInf else s) (enumerate 0 scores));
          attn_weights = a_softmax ar scores
      in map (\<lambda>c. a_sum ar (map2 (\<lambda>wj vj. a_mul ar wj (vj ! c)) attn_weights Vh)) [0 ..< d])"

definition attend_position_fp ::
  "attn_ops \<Rightarrow> linear MultiHeadAttention \<Rightarrow> fval list \<Rightarrow> fval list list \<Rightarrow> fval list list \<Rightarrow>
     (nat \<Rightarrow> (nat \<Rightarrow> bool) option) \<Rightarrow> fval list"
where
  "attend_position_fp ar self q K V mask_rows =
     linear_apply_fp ar (fc_out self)
       (concat (map (\<lambda>h. attend_head_fp ar self h q K V (mask_rows h)) [0 ..< nat (num_heads self)]))"

definition forward_fp ::
  "attn_ops \<Rightarrow> linear MultiHeadAttention \<Rightarrow> fval list list list \<Rightarrow> fval list list list \<Rightarrow>
     fval list list list \<Rightarrow> (nat \<Rightarrow> nat \<Rightarrow> nat \<Rightarrow> nat \<Rightarrow> bool) option \<Rightarrow> fval list list list option"
where
  "forward_fp ar self query key val msk =
     (if \<not> forward_ok_fp self query key val then None
      else
        let Q = map (map (linear_apply_fp ar (query_proj self))) query;
            K = map (map (linear_apply_fp ar (query_proj self))) key;
            V = map (map (linear_apply_fp ar (query_proj self))) val
        in Some (map (\<lambda>b. map (\<lambda>i. attend_position_fp ar self (Q ! b ! i) (K ! b) (V ! b)
                                      (\<lambda>h. map_option (\<lambda>m. m b h i) msk))
                            [0 ..< length (Q ! b)])
                   [0 ..< length Q]))"

text \<open>
  What the proof of the causal property uses of the operations: zero times a finite
  number is zero, a product with not-a-number is not-a-number, a softmax returns one
  weight per score, and the weight of a score of minus infinity is zero or not-a-number.
  Zero times an infinity is not-a-number in the floating-point standard, so nothing is
  assumed about such a product.
\<close>

definition attn_contract :: "attn_ops \<Rightarrow> bool" where
  "attn_contract ar \<longleftrightarrow>
     (\<forall>v. a_mul ar (Fin 0) (Fin v) = Fin 0) \<and>
     (\<forall>x. a_mul ar NaN x = NaN) \<and>
     (\<forall>xs. length (a_softmax ar xs) = length xs) \<and>
     (\<forall>xs j. j < length xs \<longrightarrow> xs ! j = NegInf \<longrightarrow>
        a_softmax ar xs ! j = Fin 0 \<or> a_softmax ar xs ! j = NaN)"

subsection \<open>Operations with the special values and the range of float32\<close>

text \<open>
  The largest finite number of \<open>float32\<close>, and operations that follow the
  floating-point standard on infinities, not-a-number and division by zero, and overflow
  to an infinity beyond that number.  Rounding of finite results is left out of this
  instance.
\<close>

definition f32_max :: real where
  "f32_max = (2 ^ 24 - 1) * 2 ^ 104"

definition overflow :: "real \<Rightarrow> fval" where
  "overflow x = (if f32_max < x then PosInf else if x < - f32_max then NegInf else Fin x)"

fun fmul :: "fval \<Rightarrow> fval \<Rightarrow> fval" where
  "fmul NaN y = NaN"
| "fmul x NaN = NaN"
| "fmul (Fin a) (Fin b) = overflow (a * b)"
| "fmul (Fin a) PosInf = (if a = 0 then NaN else if 0 < a then PosInf else NegInf)"
| "fmul (Fin a) NegInf = (if a = 0 then NaN else if 0 < a then NegInf else PosInf)"
| "fmul PosInf (Fin b) = (if b = 0 then NaN else if 0 < b then PosInf else NegInf)"
| "fmul NegInf (Fin b) = (if b = 0 then NaN else if 0 < b then NegInf else PosInf)"
| "fmul PosInf PosInf = PosInf"
| "fmul PosInf NegInf = NegInf"
| "fmul NegInf PosInf = NegInf"
| "fmul NegInf NegInf = PosInf"

fun fadd :: "fval \<Rightarrow> fval \<Rightarrow> fval" where
  "fadd NaN y = NaN"
| "fadd x NaN = NaN"
| "fadd (Fin a) (Fin b) = overflow (a + b)"
| "fadd PosInf NegInf = NaN"
| "fadd NegInf PosInf = NaN"
| "fadd PosInf y = PosInf"
| "fadd NegInf y = NegInf"
| "fadd x PosInf = PosInf"
| "fadd x NegInf = NegInf"

fun fdiv :: "fval \<Rightarrow> fval \<Rightarrow> fval" where
  "fdiv NaN y = NaN"
| "fdiv x NaN = NaN"
| "fdiv (Fin a) (Fin b) =
     (if b = 0 then (if a = 0 then NaN else if 0 < a then PosInf else NegInf) else overflow (a / b))"
| "fdiv (Fin a) y = Fin 0"
| "fdiv PosInf (Fin b) = (if 0 \<le> b then PosInf else NegInf)"
| "fdiv NegInf (Fin b) = (if 0 \<le> b then NegInf else PosInf)"
| "fdiv x y = NaN"

definition fsoftmax :: "fval list \<Rightarrow> fval list" where
  "fsoftmax xs = (case softmax_scores xs of None \<Rightarrow> replicate (length xs) NaN | Some w \<Rightarrow> map Fin w)"

definition ieee_ops :: attn_ops where
  "ieee_ops = \<lparr> a_mul = fmul, a_add = fadd, a_sum = foldl fadd (Fin 0), a_div = fdiv, a_softmax = fsoftmax \<rparr>"

subsection \<open>Rounding to float32\<close>

text \<open>
  Rounding to the nearest number of \<open>float32\<close>, ties to the even significand: 24 bits of
  significand, the exponent not below \<open>-126\<close>.  Overflow is left out; it is used on
  numbers below 1 only.
\<close>

definition round_half_even :: "real \<Rightarrow> int" where
  "round_half_even r =
     (let f = \<lfloor>r\<rfloor>; d = r - of_int f
      in if d < 1/2 then f else if 1/2 < d then f + 1 else if even f then f else f + 1)"

definition round32 :: "real \<Rightarrow> real" where
  "round32 x =
     (if x = 0 then 0
      else let e = max \<lfloor>log 2 \<bar>x\<bar>\<rfloor> (- 126);
               u = 2 powr (of_int e - 23)
           in u * of_int (round_half_even (x / u)))"

text \<open>The operations of the real numbers with the product rounded to \<open>float32\<close>.\<close>

definition rounded_product_ops :: torch_ops where
  "rounded_product_ops = exact_ops \<lparr> op_mul := \<lambda>a b. round32 (a * b) \<rparr>"

section \<open>Auxiliary notions and example inputs\<close>

text \<open>A loop body that appends exactly one token to \<open>generated_tokens\<close>.\<close>

definition appends_one :: "(loop_state \<Rightarrow> py_error + loop_state list) \<Rightarrow> bool" where
  "appends_one body \<longleftrightarrow>
     (\<forall>toks enc nexts toks1 enc1. body (toks, enc) = Inr nexts \<longrightarrow> (toks1, enc1) \<in> set nexts \<longrightarrow>
        (\<exists>tok. toks1 = toks @ [tok]))"

text \<open>
  Scorers that return, for every encoding, logits over one vocabulary of at least 50
  entries.
\<close>

definition scorers_ok :: "scorer \<Rightarrow> scorer \<Rightarrow> bool" where
  "scorers_ok expert_model amateur_model \<longleftrightarrow>
     (\<forall>enc. \<exists>el al. expert_model enc = Inr el \<and> amateur_model enc = Inr al \<and>
                     50 \<le> length el \<and> length al = length el)"

text \<open>
  A tokenizer over the byte values, a scorer with 50 equal logits, and a scorer whose
  first logit carries probability \<open>51/100\<close>.
\<close>

definition tk0 :: tokenizer where
  "tk0 = \<lparr> decode = map char_of, encode = map of_char \<rparr>"

definition flat_scorer :: scorer where
  "flat_scorer enc = Inr (replicate 50 0)"

definition peaked_scorer :: scorer where
  "peaked_scorer enc = Inr (ln 51 # replicate 49 0)"

text \<open>The distributions of the worked example of the specification.\<close>

definition example_expert :: "real list" where
  "example_expert = [7/10, 2/10, 1/20, 1/20]"

definition example_amateur :: "real list" where
  "example_amateur = [1/10, 1/10, 4/10, 4/10]"

text \<open>
  A vocabulary of 50 entries on which, for \<open>alpha = 1/2\<close>, only the first entry is
  plausible, and the scores the adaptive cell computes for it.
\<close>

definition peaked_expert :: "real list" where
  "peaked_expert = (51/100) # replicate 49 (1/100)"

definition uniform_amateur :: "real list" where
  "uniform_amateur = replicate 50 (1/50)"

definition peaked_scores :: "fval list" where
  "peaked_scores = Fin (ln (51/100) - ln (1/50)) # replicate 49 NegInf"

text \<open>
  A distribution of \<open>float32\<close> numbers on which the exact product \<open>3/4 * max\<close> lies
  halfway between two numbers of \<open>float32\<close>, the lower of which is the second entry.
\<close>

definition tie_expert :: "real list" where
  "tie_expert = [8489271 / 2 ^ 24, 6366953 / 2 ^ 24, 60031 / 2 ^ 19]"

text \<open>A module with two heads of dimension one and a sequence of two positions.\<close>

definition identity_linear :: linear where
  "identity_linear = \<lparr> weight = [[1, 0], [0, 1]], bias = [0, 0] \<rparr>"

definition swapped_linear :: linear where
  "swapped_linear = \<lparr> weight = [[0, 1], [1, 0]], bias = [1, 1] \<rparr>"

definition small_attention :: "linear MultiHeadAttention" where
  "small_attention =
     \<lparr> hidden_size = 2, num_heads = 2, head_dim = 1,
       query_proj = identity_linear, key_proj = identity_linear, value_proj = identity_linear,
       fc_out = identity_linear, scale = 1 \<rparr>"

definition seq_a :: "real list list list" where
  "seq_a = [[[1, 0], [0, 1]]]"

text \<open>
  A module with one head of dimension one whose projection doubles its input, and three
  sequences that agree at position 0: the entry at position 1 is 1, 5, or \<open>2 ^ 127\<close>, a
  number of \<open>float32\<close> whose double is beyond the range.
\<close>

definition doubling_linear :: linear where
  "doubling_linear = \<lparr> weight = [[2]], bias = [0] \<rparr>"

definition unit_linear :: linear where
  "unit_linear = \<lparr> weight = [[1]], bias = [0] \<rparr>"

definition doubling_attention :: "linear MultiHeadAttention" where
  "doubling_attention =
     \<lparr> hidden_size = 1, num_heads = 1, head_dim = 1,
       query_proj = doubling_linear, key_proj = doubling_linear, value_proj = doubling_linear,
       fc_out = unit_linear, scale = 1 \<rparr>"

definition seq_one :: "fval list list list" where
  "seq_one = [[[Fin 1], [Fin 1]]]"

definition seq_five :: "fval list list list" where
  "seq_five = [[[Fin 1], [Fin 5]]]"

definition huge :: real where
  "huge = 2 ^ 127"

definition seq_huge :: "fval list list list" where
  "seq_huge = [[[Fin 1], [Fin huge]]]"

section \<open>Properties of the constructor\<close>

lemma misspelled_not_param: "''in_feautures'' \<notin> set Linear_params"
  by (simp add: Linear_params_def)

lemma nn_Linear_misspelled:
  "nn_Linear mk [] ((''in_feautures'', a) # kws) = Inl (TypeError (UnexpectedKeyword ''in_feautures''))"
  by (simp add: nn_Linear_def bind_args_def Linear_params_def)

lemma init_is_error:
  "\<exists>e. MultiHeadAttention_init mk h n = Inl e"
  by (auto simp: MultiHeadAttention_init_def Let_def nn_Linear_misspelled split: sum.splits)

text \<open>
  C9.  Constructing the attention module with a hidden size that the number of heads
  does not divide fails at construction: the assertion of the constructor raises, and no
  object is built.  The sizes 10 and 3 of the specification are the witness.
\<close>

theorem init_rejects_indivisible:
  "num_heads_arg \<noteq> 0 \<Longrightarrow> hidden_size_arg mod num_heads_arg \<noteq> 0 \<Longrightarrow>
     MultiHeadAttention_init mk hidden_size_arg num_heads_arg = Inl AssertionError"
  by (simp add: MultiHeadAttention_init_def)

theorem init_rejects_indivisible_witness:
  "(3::int) \<noteq> 0 \<and> (10::int) mod 3 \<noteq> 0 \<and>
   MultiHeadAttention_init (\<lambda>a b. Inr (a, b) :: py_error + int \<times> int) 10 3 = Inl AssertionError"
  using init_rejects_indivisible [of 3 10 "\<lambda>a b. Inr (a, b) :: py_error + int \<times> int"] by simp

text \<open>
  C10.  Whatever the sizes and whatever the linear layer does with them, the constructor
  raises.  Where the assertion passes and the linear layer builds, the error is the
  \<open>TypeError\<close> of the third linear layer, whose keyword \<open>in_feautures\<close> names no
  parameter.
\<close>

theorem init_always_raises:
  "(\<exists>e. MultiHeadAttention_init mk h n = Inl e) \<and>
   (n \<noteq> 0 \<longrightarrow> h mod n = 0 \<longrightarrow> (\<forall>a b. \<exists>l. mk a b = Inr l) \<longrightarrow>
      MultiHeadAttention_init mk h n = Inl (TypeError (UnexpectedKeyword ''in_feautures'')))"
proof (intro conjI impI)
  show "\<exists>e. MultiHeadAttention_init mk h n = Inl e"
    by (rule init_is_error)
next
  assume n: "n \<noteq> 0" and d: "h mod n = 0" and ok: "\<forall>a b. \<exists>l. mk a b = Inr l"
  obtain l where l: "mk h h = Inr l" using ok by blast
  have lin: "nn_Linear mk [] [(''in_features'', h), (''out_features'', h)] = Inr l"
    by (simp add: nn_Linear_def bind_args_def Linear_params_def Linear_required_def l)
  show "MultiHeadAttention_init mk h n = Inl (TypeError (UnexpectedKeyword ''in_feautures''))"
    by (simp add: MultiHeadAttention_init_def Let_def n d lin nn_Linear_misspelled)
qed

theorem init_always_raises_witness:
  "(8::int) \<noteq> 0 \<and> (512::int) mod 8 = 0 \<and>
   (\<forall>x y. \<exists>l. (\<lambda>a b. Inr (a, b) :: py_error + int \<times> int) x y = Inr l) \<and>
   MultiHeadAttention_init (\<lambda>a b. Inr (a, b) :: py_error + int \<times> int) 512 8
     = Inl (TypeError (UnexpectedKeyword ''in_feautures''))"
  using init_always_raises [of "\<lambda>a b. Inr (a, b) :: py_error + int \<times> int" 512 8] by simp

section \<open>Properties of the scores\<close>

lemma torch_max_Max:
  assumes "xs \<noteq> []"
  shows "torch_max xs = Inr (Max (set xs))"
proof (cases xs)
  case Nil then show ?thesis using assms by simp
next
  case (Cons a list)
  show ?thesis using Max.set_eq_fold [of a list] by (simp add: Cons)
qed

lemma masked_put_sub_nth:
  "length c = length m \<Longrightarrow> length m = length a \<Longrightarrow> i < length m \<Longrightarrow>
   masked_put c m (map2 f (masked_select c m) (masked_select a m)) ! i
     = (if m ! i then f (c ! i) (a ! i) else c ! i)"
proof (induction c m a arbitrary: i rule: list_induct3)
  case Nil then show ?case by simp
next
  case (Cons x xs y ys z zs)
  then show ?case by (cases i) auto
qed

lemma length_masked_put [simp]: "length (masked_put c m vs) = length c"
  by (induction c m vs rule: masked_put.induct) (auto split: list.splits)

lemma adaptive_scores_nth:
  assumes "length amateur_probs = length expert_probs" "expert_probs \<noteq> []"
  shows "\<exists>s. contrastive_logits_adaptive expert_probs amateur_probs alpha = Inr s \<and>
             length s = length expert_probs \<and>
             (\<forall>i < length expert_probs.
                s ! i = (if expert_probs ! i \<ge> alpha * Max (set expert_probs)
                         then fsub (torch_log (expert_probs ! i)) (torch_log (amateur_probs ! i))
                         else NegInf))"
  using assms
  by (simp add: contrastive_logits_adaptive_def calculate_vhead_def torch_max_Max index_mask_def
      Let_def masked_fill_def masked_put_sub_nth)

lemma plain_scores_eq:
  "length amateur_probs = length expert_probs \<Longrightarrow>
   contrastive_logits_plain expert_probs amateur_probs
     = Inr (map2 fsub (map torch_log expert_probs) (map torch_log amateur_probs))"
  by (simp add: contrastive_logits_plain_def broadcast_sub_def)

lemma exact_ops_sel [simp]:
  "op_softmax exact_ops = softmax" "op_softmax_scores exact_ops = softmax_scores"
  "op_log exact_ops = torch_log" "op_sub exact_ops = fsub"
  "op_mul exact_ops = (*)" "op_topk exact_ops = topk"
  by (simp_all add: exact_ops_def)

lemma calculate_vhead_exact: "calculate_vhead_fp exact_ops = calculate_vhead"
  by (intro ext) (simp add: calculate_vhead_fp_def calculate_vhead_def split: sum.splits)

lemma contrastive_logits_adaptive_exact:
  "contrastive_logits_adaptive_fp exact_ops = contrastive_logits_adaptive"
  by (intro ext)
    (simp add: contrastive_logits_adaptive_fp_def contrastive_logits_adaptive_def
      calculate_vhead_exact Let_def split: sum.splits)

lemma contrastive_logits_plain_exact:
  "contrastive_logits_plain_fp exact_ops = contrastive_logits_plain"
  by (intro ext)
    (simp add: contrastive_logits_plain_fp_def contrastive_logits_plain_def
      broadcast_sub_fp_def broadcast_sub_def)

lemma sample_and_append_exact: "sample_and_append_fp exact_ops = sample_and_append"
  by (intro ext)
    (simp add: sample_and_append_fp_def sample_and_append_def Let_def split: sum.splits prod.splits)

lemma adaptive_scores_nth_fp:
  assumes "length amateur_probs = length expert_probs" "expert_probs \<noteq> []"
  shows "\<exists>s. contrastive_logits_adaptive_fp ops expert_probs amateur_probs alpha = Inr s \<and>
             length s = length expert_probs \<and>
             (\<forall>i < length expert_probs.
                s ! i = (if expert_probs ! i \<ge> op_mul ops alpha (Max (set expert_probs))
                         then op_sub ops (op_log ops (expert_probs ! i)) (op_log ops (amateur_probs ! i))
                         else NegInf))"
  using assms
  by (simp add: contrastive_logits_adaptive_fp_def calculate_vhead_fp_def torch_max_Max index_mask_def
      Let_def masked_fill_def masked_put_sub_nth)

text \<open>
  C2.  For expert and amateur distributions over the same vocabulary, which is not empty,
  every \<open>alpha\<close> and whatever the arithmetic of the framework, the adaptive cell computes a
  score vector whose entry \<open>i\<close> is \<open>log(expert_probs[i]) - log(amateur_probs[i])\<close> where
  \<open>expert_probs[i] >= alpha * max(expert_probs)\<close>, which is where the mask of
  \<open>calculate_vhead\<close> is true, and minus infinity at every other index.  The product, the
  logarithm and the subtraction are the framework's: the ones the code computes with.
\<close>

theorem adaptive_score_vector:
  assumes "length amateur_probs = length expert_probs" and "expert_probs \<noteq> []"
  shows "\<exists>score msk.
           contrastive_logits_adaptive_fp ops expert_probs amateur_probs alpha = Inr score \<and>
           calculate_vhead_fp ops expert_probs alpha = Inr msk \<and>
           length score = length expert_probs \<and>
           (\<forall>i < length expert_probs.
              msk ! i = (expert_probs ! i \<ge> op_mul ops alpha (Max (set expert_probs))) \<and>
              score ! i = (if expert_probs ! i \<ge> op_mul ops alpha (Max (set expert_probs))
                           then op_sub ops (op_log ops (expert_probs ! i)) (op_log ops (amateur_probs ! i))
                           else NegInf))"
proof -
  obtain s where s: "contrastive_logits_adaptive_fp ops expert_probs amateur_probs alpha = Inr s"
    and ls: "length s = length expert_probs"
    and nth: "\<forall>i < length expert_probs.
                s ! i = (if expert_probs ! i \<ge> op_mul ops alpha (Max (set expert_probs))
                         then op_sub ops (op_log ops (expert_probs ! i)) (op_log ops (amateur_probs ! i))
                         else NegInf)"
    using adaptive_scores_nth_fp [OF assms, of ops alpha] by blast
  define msk where "msk = map (\<lambda>p. p \<ge> op_mul ops alpha (Max (set expert_probs))) expert_probs"
  have cv: "calculate_vhead_fp ops expert_probs alpha = Inr msk"
    by (simp add: calculate_vhead_fp_def torch_max_Max [OF assms(2)] msk_def)
  have "\<forall>i < length expert_probs.
          msk ! i = (expert_probs ! i \<ge> op_mul ops alpha (Max (set expert_probs)))"
    by (simp add: msk_def)
  with s ls nth cv show ?thesis by blast
qed

theorem adaptive_score_vector_witness:
  "length example_amateur = length example_expert \<and> example_expert \<noteq> [] \<and>
   contrastive_logits_adaptive_fp exact_ops example_expert example_amateur (3/10)
     = Inr [Fin (ln (7/10) - ln (1/10)), NegInf, NegInf, NegInf] \<and>
   calculate_vhead_fp exact_ops example_expert (3/10) = Inr [True, False, False, False]"
proof -
  have l: "length example_amateur = length example_expert"
    by (simp add: example_expert_def example_amateur_def)
  have n: "example_expert \<noteq> []" by (simp add: example_expert_def)
  obtain score msk where s: "contrastive_logits_adaptive_fp exact_ops example_expert example_amateur (3/10) = Inr score"
    and cv: "calculate_vhead_fp exact_ops example_expert (3/10) = Inr msk"
    and ls: "length score = length example_expert"
    and nth: "\<forall>i < length example_expert.
                msk ! i = (example_expert ! i \<ge> op_mul exact_ops (3/10) (Max (set example_expert))) \<and>
                score ! i = (if example_expert ! i \<ge> op_mul exact_ops (3/10) (Max (set example_expert))
                           then op_sub exact_ops (op_log exact_ops (example_expert ! i))
                                  (op_log exact_ops (example_amateur ! i))
                           else NegInf)"
    using adaptive_score_vector [OF l n, of exact_ops "3/10"] by blast
  have mx: "Max (set example_expert) = 7/10" by (simp add: example_expert_def)
  have l4: "length example_expert = 4" by (simp add: example_expert_def)
  have s0: "score ! 0 = Fin (ln (7/10) - ln (1/10)) \<and> msk ! 0"
    using nth [rule_format, of 0] unfolding mx l4
    by (simp add: torch_log_def example_expert_def example_amateur_def)
  have s1: "score ! 1 = NegInf \<and> \<not> msk ! 1" using nth [rule_format, of 1] unfolding mx l4
    by (simp add: example_expert_def)
  have s2: "score ! 2 = NegInf \<and> \<not> msk ! 2" using nth [rule_format, of 2] unfolding mx l4
    by (simp add: example_expert_def)
  have s3: "score ! 3 = NegInf \<and> \<not> msk ! 3" using nth [rule_format, of 3] unfolding mx l4
    by (simp add: example_expert_def)
  have "length score = Suc (Suc (Suc (Suc 0)))" using ls l4 by simp
  then obtain a b c d where sc: "score = [a, b, c, d]"
    by (auto simp: length_Suc_conv)
  have sv: "score = [Fin (ln (7/10) - ln (1/10)), NegInf, NegInf, NegInf]"
    using s0 s1 s2 s3 by (simp add: sc)
  have "length msk = Suc (Suc (Suc (Suc 0)))"
    using cv n l4 by (auto simp: calculate_vhead_fp_def torch_max_Max)
  then obtain a' b' c' d' where mc: "msk = [a', b', c', d']"
    by (auto simp: length_Suc_conv)
  have mv: "msk = [True, False, False, False]"
    using s0 s1 s2 s3 by (simp add: mc)
  show ?thesis using s cv l n sv mv by simp
qed

text \<open>
  The product matters at a tie.  On a distribution whose exact product \<open>3/4 * max\<close> lies
  halfway between two numbers of \<open>float32\<close>, the rounded product is the second entry, so
  the mask computed with the rounded product is true there, and the mask computed with
  the product of the real numbers is false.
\<close>

lemma floor_log2_tie: "\<lfloor>log 2 \<bar>25467813 / 2 ^ 26 :: real\<bar>\<rfloor> = - 2"
proof (rule floor_unique)
  have p: "(0 :: real) < 25467813 / 2 ^ 26" by simp
  have "2 powr (- 2) \<le> (25467813 / 2 ^ 26 :: real)" by (simp add: powr_minus_divide)
  then show "of_int (- 2) \<le> log 2 \<bar>25467813 / 2 ^ 26 :: real\<bar>"
    using p by (simp add: le_log_iff)
  have "(25467813 / 2 ^ 26 :: real) < 2 powr (- 1)" by (simp add: powr_minus_divide)
  then show "log 2 \<bar>25467813 / 2 ^ 26 :: real\<bar> < of_int (- 2) + 1"
    using p by (simp add: log_less_iff)
qed

lemma round32_tie: "round32 (25467813 / 2 ^ 26) = 6366953 / 2 ^ 24"
proof -
  have u: "(2 :: real) powr (of_int (max (- 2) (- 126)) - 23) = 1 / 2 ^ 25"
    by (simp add: powr_minus_divide)
  have q: "(25467813 / 2 ^ 26 :: real) / (1 / 2 ^ 25) = 25467813 / 2" by simp
  have fl: "\<lfloor>25467813 / 2 :: real\<rfloor> = 12733906"
    by (rule floor_unique) simp_all
  have r: "round_half_even (25467813 / 2) = 12733906"
    by (simp add: round_half_even_def fl Let_def)
  show ?thesis
    by (simp only: round32_def floor_log2_tie Let_def u q r) simp
qed

lemma rounded_product_tie:
  "sum_list tie_expert = 1 \<and>
   calculate_vhead_fp rounded_product_ops tie_expert (3 / 4) = Inr [True, True, False] \<and>
   calculate_vhead_fp exact_ops tie_expert (3 / 4) = Inr [True, False, False] \<and>
   tie_expert ! 1 < 3 / 4 * Max (set tie_expert) \<and>
   tie_expert ! 1 = op_mul rounded_product_ops (3 / 4) (Max (set tie_expert))"
proof -
  have mx: "Max (set tie_expert) = 8489271 / 2 ^ 24" by (simp add: tie_expert_def)
  have tm: "torch_max tie_expert = Inr (8489271 / 2 ^ 24)"
    using torch_max_Max [of tie_expert] mx by (simp add: tie_expert_def)
  have pr: "(3 / 4 :: real) * (8489271 / 2 ^ 24) = 25467813 / 2 ^ 26" by simp
  have "op_mul rounded_product_ops (3 / 4) (8489271 / 2 ^ 24) = round32 (3 / 4 * (8489271 / 2 ^ 24))"
    by (simp add: rounded_product_ops_def)
  then have rm: "op_mul rounded_product_ops (3 / 4) (8489271 / 2 ^ 24) = 6366953 / 2 ^ 24"
    by (simp only: pr round32_tie)
  have a: "sum_list tie_expert = 1" by (simp add: tie_expert_def)
  have b: "calculate_vhead_fp rounded_product_ops tie_expert (3 / 4) = Inr [True, True, False]"
    unfolding calculate_vhead_fp_def tm sum.case rm by (simp add: tie_expert_def)
  have c: "calculate_vhead_fp exact_ops tie_expert (3 / 4) = Inr [True, False, False]"
    by (simp add: calculate_vhead_fp_def tm) (simp add: tie_expert_def)
  have d: "tie_expert ! 1 < 3 / 4 * Max (set tie_expert)"
    unfolding mx by (simp add: tie_expert_def)
  have e: "tie_expert ! 1 = op_mul rounded_product_ops (3 / 4) (Max (set tie_expert))"
    unfolding mx rm by (simp add: tie_expert_def)
  from a b c d e show ?thesis by simp
qed



lemma argmax_plausible:
  assumes ne: "expert_probs \<noteq> []"
    and nonneg: "\<forall>p \<in> set expert_probs. 0 \<le> p"
    and a1: "alpha \<le> 1"
  shows "\<exists>msk. calculate_vhead expert_probs alpha = Inr msk \<and> length msk = length expert_probs \<and>
           (\<forall>i < length expert_probs. expert_probs ! i = Max (set expert_probs) \<longrightarrow> msk ! i) \<and>
           (\<exists>i < length expert_probs. msk ! i)"
proof -
  let ?m = "Max (set expert_probs)"
  have m_in: "?m \<in> set expert_probs" using ne by (intro Max_in) simp_all
  then have m0: "0 \<le> ?m" using nonneg by blast
  have le: "alpha * ?m \<le> ?m" using mult_right_mono [OF a1 m0] by simp
  obtain i where i: "i < length expert_probs" "expert_probs ! i = ?m"
    using m_in by (auto simp: in_set_conv_nth)
  show ?thesis
    using le i by (auto simp: calculate_vhead_def torch_max_Max [OF ne])
qed



section \<open>Properties of top-k and sampling\<close>

lemma topk_ranked:
  "topk xs k = (if k > length xs then Inl RuntimeError
                else Inr (map fst (ranked xs k), map snd (ranked xs k)))"
  by (simp add: topk_def Let_def)

lemma length_ranked: "k \<le> length xs \<Longrightarrow> length (ranked xs k) = k"
  by (simp add: ranked_def)

lemma set_ranked_subset: "set (ranked xs k) \<subseteq> set (zip xs [0 ..< length xs])"
proof -
  have "set (ranked xs k) \<subseteq> set (rev (sort_key (\<lambda>(v, i). topk_key v) (zip xs [0 ..< length xs])))"
    unfolding ranked_def by (rule set_take_subset)
  then show ?thesis by simp
qed

lemma in_zip_upt: "(v, i) \<in> set (zip xs [0 ..< length xs]) \<Longrightarrow> i < length xs \<and> v = xs ! i"
  by (auto simp: set_zip)

lemma ranked_entry: "(v, i) \<in> set (ranked xs k) \<Longrightarrow> i < length xs \<and> v = xs ! i"
proof -
  assume "(v, i) \<in> set (ranked xs k)"
  then have "(v, i) \<in> set (zip xs [0 ..< length xs])"
    using set_ranked_subset [of xs k] by (rule subsetD [rotated])
  then show ?thesis by (rule in_zip_upt)
qed

lemma distinct_ranked_idx: "distinct (map snd (ranked xs k))"
proof -
  define S where "S = sort_key (\<lambda>(v, i). topk_key v) (zip xs [0 ..< length xs])"
  have d: "distinct (map snd (zip xs [0 ..< length xs]))"
    by (simp add: map_snd_zip)
  have "distinct S \<and> inj_on snd (set S)"
    using d unfolding S_def distinct_map by simp
  then have "distinct (map snd S)" by (simp add: distinct_map)
  then have "distinct (map snd (rev S))" by (simp add: rev_map [symmetric])
  then have "distinct (take k (map snd (rev S)))" by (rule distinct_take)
  then show ?thesis by (simp add: ranked_def take_map S_def)
qed

lemma ranked_dominates:
  assumes sel: "(v, i) \<in> set (ranked xs k)" and j: "j < length xs"
    and notsel: "j \<notin> snd ` set (ranked xs k)"
  shows "topk_key (xs ! j) \<le> topk_key v"
proof -
  define f where "f = (\<lambda>(v :: fval, i :: nat). topk_key v)"
  define S where "S = sort_key f (zip xs [0 ..< length xs])"
  define n where "n = length S - k"
  have rk: "ranked xs k = rev (drop n S)"
    by (simp add: ranked_def take_rev S_def n_def f_def)
  have "sorted (map f S)" by (simp add: S_def)
  then have "sorted (map f (take n S) @ map f (drop n S))"
    by (simp only: map_append [symmetric] append_take_drop_id)
  then have srt: "\<forall>x \<in> set (map f (take n S)). \<forall>y \<in> set (map f (drop n S)). x \<le> y"
    by (simp only: sorted_append) blast
  have "(xs ! j, j) \<in> set (zip xs [0 ..< length xs])"
    using j by (auto simp: set_zip)
  then have "(xs ! j, j) \<in> set S" by (simp add: S_def)
  then have "(xs ! j, j) \<in> set (take n S @ drop n S)" by (simp only: append_take_drop_id)
  then have "(xs ! j, j) \<in> set (take n S) \<or> (xs ! j, j) \<in> set (drop n S)"
    by (simp only: set_append Un_iff)
  moreover have "(xs ! j, j) \<notin> set (drop n S)"
  proof
    assume "(xs ! j, j) \<in> set (drop n S)"
    then have "(xs ! j, j) \<in> set (ranked xs k)" by (simp add: rk)
    then have "snd (xs ! j, j) \<in> snd ` set (ranked xs k)" by (rule imageI)
    with notsel show False by simp
  qed
  ultimately have a: "(xs ! j, j) \<in> set (take n S)" by blast
  have b: "(v, i) \<in> set (drop n S)" using sel by (simp add: rk)
  have "f (xs ! j, j) \<in> set (map f (take n S))" using a by simp
  moreover have "f (v, i) \<in> set (map f (drop n S))" using b by simp
  ultimately have "f (xs ! j, j) \<le> f (v, i)" using srt by blast
  then show ?thesis by (simp add: f_def)
qed

lemma nth_ranked:
  assumes "s < length (ranked xs k)"
  shows "map snd (ranked xs k) ! s < length xs \<and>
         map fst (ranked xs k) ! s = xs ! (map snd (ranked xs k) ! s)"
proof -
  have "ranked xs k ! s \<in> set (ranked xs k)" using assms by simp
  then have "(fst (ranked xs k ! s), snd (ranked xs k ! s)) \<in> set (ranked xs k)" by simp
  then have "snd (ranked xs k ! s) < length xs \<and> fst (ranked xs k ! s) = xs ! snd (ranked xs k ! s)"
    by (rule ranked_entry)
  then show ?thesis using assms by simp
qed

lemma ranked_all: "set (map fst (ranked xs (length xs))) = set xs"
proof -
  define S where "S = sort_key (\<lambda>(v, i). topk_key v) (zip xs [0 ..< length xs])"
  have "ranked xs (length xs) = rev S"
    by (simp add: ranked_def S_def)
  then have "set (map fst (ranked xs (length xs))) = fst ` set S" by simp
  also have "set S = set (zip xs [0 ..< length xs])" by (simp add: S_def)
  also have "fst ` set (zip xs [0 ..< length xs]) = set (map fst (zip xs [0 ..< length xs]))"
    by (simp only: set_map)
  also have "map fst (zip xs [0 ..< length xs]) = xs" by (simp add: map_fst_zip)
  finally show ?thesis .
qed

lemma fexp_nonneg: "0 \<le> fexp v"
  by (cases v) simp_all

lemma fexp_pos_iff: "0 < fexp v \<longleftrightarrow> (\<exists>x. v = Fin x)"
  by (cases v) simp_all

lemma sum_list_fexp_nonneg: "0 \<le> sum_list (map fexp vs)"
  by (rule sum_list_nonneg) (auto simp: fexp_nonneg)

lemma sum_list_fexp_pos:
  assumes "Fin x \<in> set vs"
  shows "0 < sum_list (map fexp vs)"
  using assms
proof (induction vs)
  case Nil then show ?case by simp
next
  case (Cons v vs)
  show ?case
  proof (cases "v = Fin x")
    case True
    have "0 < exp x + sum_list (map fexp vs)"
      using sum_list_fexp_nonneg [of vs] exp_gt_zero [of x] by linarith
    then show ?thesis by (simp add: True)
  next
    case False
    then have "Fin x \<in> set vs" using Cons.prems by simp
    then have "0 < sum_list (map fexp vs)" by (rule Cons.IH)
    then show ?thesis using fexp_nonneg [of v] by simp
  qed
qed

lemma sum_list_divide: "sum_list (map (\<lambda>v. f v / c) vs) = sum_list (map f vs) / (c :: real)"
  by (induction vs) (simp_all add: add_divide_distrib)

lemma softmax_scores_Some:
  assumes "softmax_scores vs = Some w"
  shows "w = map (\<lambda>v. fexp v / sum_list (map fexp vs)) vs"
  using assms by (simp add: softmax_scores_def split: if_splits)

lemma multinomial_draw:
  assumes "multinomial (Some w) = Inr draws" and "s \<in> set draws"
  shows "s < length w \<and> 0 < w ! s"
  using assms by (auto simp: multinomial_def split: if_splits)

lemma positive_weight_Fin:
  assumes "0 < fexp v / c"
  shows "\<exists>x. v = Fin x"
proof (cases v)
  case (Fin x) then show ?thesis by simp
qed (use assms in simp_all)

lemma ranked_has_Fin:
  assumes k: "0 < k" "k \<le> length xs"
    and wf: "\<forall>v \<in> set xs. v = NegInf \<or> (\<exists>x. v = Fin x)"
    and fin: "Fin x \<in> set xs"
  shows "\<exists>y. Fin y \<in> set (map fst (ranked xs k))"
proof -
  obtain j where j: "j < length xs" and xj: "xs ! j = Fin x"
    using fin by (auto simp: in_set_conv_nth)
  show ?thesis
  proof (cases "j \<in> snd ` set (ranked xs k)")
    case True
    then obtain v where m: "(v, j) \<in> set (ranked xs k)" by auto
    then have "v = xs ! j" using ranked_entry by blast
    then have "(Fin x, j) \<in> set (ranked xs k)" using m xj by simp
    then have "fst (Fin x, j) \<in> fst ` set (ranked xs k)" by (rule imageI)
    then show ?thesis by auto
  next
    case False
    have "ranked xs k \<noteq> []" using length_ranked [OF k(2)] k(1) by auto
    then obtain v i where m: "(v, i) \<in> set (ranked xs k)"
      by (cases "ranked xs k") auto
    have le: "topk_key (xs ! j) \<le> topk_key v" using m j False by (rule ranked_dominates)
    have vi: "i < length xs \<and> v = xs ! i" using m by (rule ranked_entry)
    then have "v \<in> set xs" by simp
    then have "v = NegInf \<or> (\<exists>y. v = Fin y)" using wf by blast
    moreover have "v \<noteq> NegInf"
    proof
      assume "v = NegInf"
      then show False using le xj by (simp add: less_eq_prod_def)
    qed
    ultimately obtain y where "v = Fin y" by blast
    then have "fst (Fin y, i) \<in> fst ` set (ranked xs k)" using m by (intro imageI) simp
    then show ?thesis by auto
  qed
qed

lemma pool_draw_exists:
  assumes len: "50 \<le> length scores"
    and wf: "\<forall>v \<in> set scores. v = NegInf \<or> (\<exists>x. v = Fin x)"
    and fin: "Fin x \<in> set scores"
  shows "\<exists>vals idxs w draws. topk scores 50 = Inr (vals, idxs) \<and> softmax_scores vals = Some w \<and>
           multinomial (Some w) = Inr draws \<and> draws \<noteq> []"
proof -
  define R where "R = ranked scores 50"
  define vs where "vs = map fst R"
  define c where "c = sum_list (map fexp vs)"
  define w where "w = map (\<lambda>v. fexp v / c) vs"
  have tk: "topk scores 50 = Inr (vs, map snd R)"
    using len by (simp add: topk_ranked R_def vs_def)
  have sub: "set vs \<subseteq> set scores"
  proof
    fix v assume "v \<in> set vs"
    then obtain i where "(v, i) \<in> set R" by (auto simp: vs_def)
    then have "i < length scores \<and> v = scores ! i" unfolding R_def by (rule ranked_entry)
    then show "v \<in> set scores" by simp
  qed
  have vwf: "\<forall>v \<in> set vs. v = NegInf \<or> (\<exists>x. v = Fin x)" using sub wf by blast
  obtain y where y: "Fin y \<in> set vs"
    using ranked_has_Fin [of 50 scores x] len wf fin by (auto simp: vs_def R_def)
  have noNaN: "NaN \<notin> set vs" and noInf: "PosInf \<notin> set vs" using vwf by auto
  have notall: "\<not> (\<forall>v \<in> set vs. v = NegInf)" using y by auto
  have sm: "softmax_scores vs = Some w"
    using noNaN noInf notall by (simp add: softmax_scores_def w_def c_def)
  have cpos: "0 < c" unfolding c_def using y by (rule sum_list_fexp_pos)
  have wnn: "\<not> (\<exists>p \<in> set w. p < 0)"
    using cpos by (auto simp: w_def fexp_nonneg not_less)
  have "sum_list w = c / c" unfolding w_def by (simp add: sum_list_divide c_def)
  then have wsum: "\<not> sum_list w \<le> 0" using cpos by simp
  define draws where "draws = filter (\<lambda>i. w ! i > 0) [0 ..< length w]"
  have mn: "multinomial (Some w) = Inr draws"
    using wnn wsum by (simp add: multinomial_def draws_def)
  obtain j where j: "j < length vs" and vj: "vs ! j = Fin y"
    using y by (auto simp: in_set_conv_nth)
  have "0 < w ! j" using j vj cpos by (simp add: w_def)
  then have "j \<in> set draws" using j by (simp add: draws_def w_def)
  then have dne: "draws \<noteq> []" by auto
  show ?thesis using tk sm mn dne by blast
qed

lemma peaked_scores_eq:
  "contrastive_logits_adaptive peaked_expert uniform_amateur (1/2) = Inr peaked_scores"
proof -
  have l: "length uniform_amateur = length peaked_expert"
    by (simp add: peaked_expert_def uniform_amateur_def)
  have n: "peaked_expert \<noteq> []" by (simp add: peaked_expert_def)
  obtain s where s: "contrastive_logits_adaptive peaked_expert uniform_amateur (1/2) = Inr s"
    and ls: "length s = length peaked_expert"
    and nth: "\<forall>i < length peaked_expert.
                s ! i = (if peaked_expert ! i \<ge> (1/2) * Max (set peaked_expert)
                         then fsub (torch_log (peaked_expert ! i)) (torch_log (uniform_amateur ! i))
                         else NegInf)"
    using adaptive_scores_nth [OF l n, of "1/2"] by blast
  have mx: "Max (set peaked_expert) = 51/100" by (simp add: peaked_expert_def)
  have l50: "length peaked_expert = 50" by (simp add: peaked_expert_def)
  have "s = peaked_scores"
  proof (rule nth_equalityI)
    show "length s = length peaked_scores" by (simp add: ls l50 peaked_scores_def)
  next
    fix i assume "i < length s"
    then have i: "i < 50" by (simp add: ls l50)
    show "s ! i = peaked_scores ! i"
    proof (cases i)
      case 0
      then show ?thesis using nth [rule_format, of 0] unfolding mx l50
        by (simp add: peaked_expert_def uniform_amateur_def peaked_scores_def torch_log_def)
    next
      case (Suc j)
      then have j: "j < 49" using i by simp
      have "s ! i = NegInf" using nth [rule_format, of i] i j unfolding mx l50
        by (simp add: peaked_expert_def Suc)
      then show ?thesis using j by (simp add: peaked_scores_def Suc)
    qed
  qed
  then show ?thesis using s by simp
qed

text \<open>
  C4 (amended).  The truncated-sampling step selects the indices of the 50 highest
  scores, 50 being a constant of the code: \<open>k\<close> is neither configurable nor clamped to
  the count of entries that are not excluded.  With fewer than 50 entries \<open>topk\<close>
  raises.  With 50 or more it returns exactly 50 distinct indices with their scores, no
  entry left out ranking above a selected one, however many entries are excluded; an
  excluded entry that is among the candidates is never the one drawn.
\<close>

theorem topk_fifty_not_clamped:
  "(length scores < 50 \<longrightarrow>
      topk scores 50 = Inl RuntimeError \<and> sample_and_append tk scores toks = Inl RuntimeError) \<and>
   (50 \<le> length scores \<longrightarrow>
      (\<exists>vals idxs. topk scores 50 = Inr (vals, idxs) \<and>
         length vals = 50 \<and> length idxs = 50 \<and> distinct idxs \<and>
         (\<forall>j < 50. idxs ! j < length scores \<and> vals ! j = scores ! (idxs ! j)) \<and>
         (\<forall>i \<in> set idxs. \<forall>j < length scores. j \<notin> set idxs \<longrightarrow>
              topk_key (scores ! j) \<le> topk_key (scores ! i)) \<and>
         (\<forall>w draws. softmax_scores vals = Some w \<longrightarrow> multinomial (Some w) = Inr draws \<longrightarrow>
              (\<forall>d \<in> set draws. d < 50 \<and> vals ! d \<noteq> NegInf))))"
proof (intro conjI impI)
  assume "length scores < 50"
  then show "topk scores 50 = Inl RuntimeError" by (simp add: topk_ranked)
next
  assume "length scores < 50"
  then show "sample_and_append tk scores toks = Inl RuntimeError"
    by (simp add: sample_and_append_def topk_ranked)
next
  assume l: "50 \<le> length scores"
  define R where "R = ranked scores 50"
  have lR: "length R = 50" using l by (simp add: R_def length_ranked)
  have tk: "topk scores 50 = Inr (map fst R, map snd R)"
    using l by (simp add: topk_ranked R_def)
  have d: "distinct (map snd R)" unfolding R_def by (rule distinct_ranked_idx)
  have e: "\<forall>j < 50. map snd R ! j < length scores \<and> map fst R ! j = scores ! (map snd R ! j)"
  proof (intro allI impI)
    fix j :: nat assume "j < 50"
    then have "j < length (ranked scores 50)" using lR by (simp add: R_def)
    then show "map snd R ! j < length scores \<and> map fst R ! j = scores ! (map snd R ! j)"
      unfolding R_def by (rule nth_ranked)
  qed
  have dom: "\<forall>i \<in> set (map snd R). \<forall>j < length scores. j \<notin> set (map snd R) \<longrightarrow>
              topk_key (scores ! j) \<le> topk_key (scores ! i)"
  proof (intro ballI allI impI)
    fix i j assume i: "i \<in> set (map snd R)" and j: "j < length scores" and nj: "j \<notin> set (map snd R)"
    from i obtain v where m: "(v, i) \<in> set (ranked scores 50)" by (auto simp: R_def)
    have v: "v = scores ! i" using ranked_entry [OF m] by simp
    have "j \<notin> snd ` set (ranked scores 50)" using nj by (simp add: R_def)
    with m j have "topk_key (scores ! j) \<le> topk_key v" by (rule ranked_dominates)
    then show "topk_key (scores ! j) \<le> topk_key (scores ! i)" by (simp add: v)
  qed
  have dr: "\<forall>w draws. softmax_scores (map fst R) = Some w \<longrightarrow> multinomial (Some w) = Inr draws \<longrightarrow>
              (\<forall>d \<in> set draws. d < 50 \<and> map fst R ! d \<noteq> NegInf)"
  proof (intro allI impI ballI)
    fix w draws d
    assume w: "softmax_scores (map fst R) = Some w" and m: "multinomial (Some w) = Inr draws"
      and dd: "d \<in> set draws"
    have dw: "d < length w" and pos: "0 < w ! d" using multinomial_draw [OF m dd] by simp_all
    have weq: "w = map (\<lambda>v. fexp v / sum_list (map fexp (map fst R))) (map fst R)"
      using w by (rule softmax_scores_Some)
    have dR: "d < length R" using dw weq by simp
    have "0 < fexp (map fst R ! d) / sum_list (map fexp (map fst R))"
      using pos dR by (subst (asm) weq) simp
    then obtain x where "map fst R ! d = Fin x" using positive_weight_Fin by blast
    then show "d < 50 \<and> map fst R ! d \<noteq> NegInf" using dR lR by simp
  qed
  have lv: "length (map fst R) = 50" and li: "length (map snd R) = 50" by (simp_all add: lR)
  show "\<exists>vals idxs. topk scores 50 = Inr (vals, idxs) \<and>
         length vals = 50 \<and> length idxs = 50 \<and> distinct idxs \<and>
         (\<forall>j < 50. idxs ! j < length scores \<and> vals ! j = scores ! (idxs ! j)) \<and>
         (\<forall>i \<in> set idxs. \<forall>j < length scores. j \<notin> set idxs \<longrightarrow>
              topk_key (scores ! j) \<le> topk_key (scores ! i)) \<and>
         (\<forall>w draws. softmax_scores vals = Some w \<longrightarrow> multinomial (Some w) = Inr draws \<longrightarrow>
              (\<forall>d \<in> set draws. d < 50 \<and> vals ! d \<noteq> NegInf))"
  proof (intro exI conjI)
    show "topk scores 50 = Inr (map fst R, map snd R)" by (rule tk)
    show "length (map fst R) = 50" by (rule lv)
    show "length (map snd R) = 50" by (rule li)
    show "distinct (map snd R)" by (rule d)
    show "\<forall>j < 50. map snd R ! j < length scores \<and> map fst R ! j = scores ! (map snd R ! j)"
      by (rule e)
    show "\<forall>i \<in> set (map snd R). \<forall>j < length scores. j \<notin> set (map snd R) \<longrightarrow>
              topk_key (scores ! j) \<le> topk_key (scores ! i)" by (rule dom)
    show "\<forall>w draws. softmax_scores (map fst R) = Some w \<longrightarrow> multinomial (Some w) = Inr draws \<longrightarrow>
              (\<forall>d \<in> set draws. d < 50 \<and> map fst R ! d \<noteq> NegInf)" by (rule dr)
  qed
qed

theorem topk_fifty_not_clamped_witness:
  "length [Fin 0] < 50 \<and> topk [Fin 0] 50 = Inl RuntimeError \<and>
   sample_and_append tk0 [Fin 0] [] = Inl RuntimeError \<and>
   50 \<le> length peaked_scores \<and>
   (\<exists>vals idxs w draws d.
      topk peaked_scores 50 = Inr (vals, idxs) \<and> length idxs = 50 \<and>
      softmax_scores vals = Some w \<and> multinomial (Some w) = Inr draws \<and>
      d \<in> set draws \<and> vals ! d \<noteq> NegInf)"
proof -
  have short: "length [Fin 0] < 50" by simp
  have l: "50 \<le> length peaked_scores" by (simp add: peaked_scores_def)
  have wf: "\<forall>v \<in> set peaked_scores. v = NegInf \<or> (\<exists>x. v = Fin x)"
    by (simp add: peaked_scores_def)
  have fin: "Fin (ln (51/100) - ln (1/50)) \<in> set peaked_scores"
    by (simp add: peaked_scores_def)
  obtain vals idxs w draws where tk: "topk peaked_scores 50 = Inr (vals, idxs)"
    and sm: "softmax_scores vals = Some w" and mn: "multinomial (Some w) = Inr draws"
    and ne: "draws \<noteq> []"
    using pool_draw_exists [OF l wf fin] by blast
  obtain d where d: "d \<in> set draws" using ne by (cases draws) auto
  have e: "topk [Fin 0] 50 = Inl RuntimeError"
    and e': "sample_and_append tk0 [Fin 0] [] = Inl RuntimeError"
    using topk_fifty_not_clamped [of "[Fin 0]" tk0 "[]"] short by blast+
  have "length idxs = 50 \<and> vals ! d \<noteq> NegInf"
    using topk_fifty_not_clamped [of peaked_scores tk0 "[]"] l tk sm mn d by auto
  then show ?thesis using short e e' l tk sm mn d by blast
qed

text \<open>
  The claim as it was stated, with \<open>k\<close> clamped so that no excluded entry enters the
  candidate pool, fails: on a vocabulary of 50 entries of which one is plausible, the
  count of entries that are not excluded is 1, yet \<open>topk\<close> returns 50 candidates, and
  entries of minus infinity are among them.
\<close>

theorem topk_pool_excluded_counterexample:
  "\<exists>score vals idxs.
     contrastive_logits_adaptive peaked_expert uniform_amateur (1/2) = Inr score \<and>
     length (filter (\<lambda>v. v \<noteq> NegInf) score) = 1 \<and>
     topk score 50 = Inr (vals, idxs) \<and> length idxs = 50 \<and> NegInf \<in> set vals"
proof -
  have l: "length peaked_scores = 50" by (simp add: peaked_scores_def)
  have one: "length (filter (\<lambda>v. v \<noteq> NegInf) peaked_scores) = 1"
    by (simp add: peaked_scores_def)
  have tk: "topk peaked_scores 50 = Inr (map fst (ranked peaked_scores 50), map snd (ranked peaked_scores 50))"
    by (simp add: topk_ranked l)
  have len: "length (map snd (ranked peaked_scores 50)) = 50"
    by (simp add: length_ranked l)
  have "set (map fst (ranked peaked_scores (length peaked_scores))) = set peaked_scores"
    by (rule ranked_all)
  then have "set (map fst (ranked peaked_scores 50)) = set peaked_scores" by (simp only: l)
  moreover have "NegInf \<in> set peaked_scores" by (simp add: peaked_scores_def)
  ultimately have neg: "NegInf \<in> set (map fst (ranked peaked_scores 50))" by simp
  show ?thesis using peaked_scores_eq one tk len neg by blast
qed

section \<open>Properties of the decoding loop\<close>

lemma sample_and_append_outcome:
  assumes ok: "sample_and_append tk scores toks = Inr nexts"
    and mem: "(toks1, enc1) \<in> set nexts"
  shows "\<exists>tok x. toks1 = toks @ [tok] \<and> enc1 = encode tk (decode tk toks1) \<and>
                 tok < length scores \<and> scores ! tok = Fin x"
proof -
  have k: "\<not> 50 > length scores"
    using ok by (auto simp: sample_and_append_def topk_ranked)
  define R where "R = ranked scores 50"
  have tk: "topk scores 50 = Inr (map fst R, map snd R)"
    using k by (simp add: topk_ranked R_def)
  obtain w where w: "softmax_scores (map fst R) = Some w"
    using ok by (cases "softmax_scores (map fst R)")
      (auto simp: sample_and_append_def tk multinomial_def)
  obtain draws where d: "multinomial (Some w) = Inr draws"
    using ok by (cases "multinomial (Some w)") (auto simp: sample_and_append_def tk w)
  have nexts: "nexts = map (\<lambda>sampled_index.
                     (toks @ [map snd R ! sampled_index],
                      encode tk (decode tk (toks @ [map snd R ! sampled_index])))) draws"
    using ok by (simp add: sample_and_append_def tk w d Let_def)
  then obtain s where s: "s \<in> set draws" and t1: "toks1 = toks @ [map snd R ! s]"
    and e1: "enc1 = encode tk (decode tk toks1)"
    using mem by auto
  have sw: "s < length w" and pos: "0 < w ! s"
    using multinomial_draw [OF d s] by simp_all
  have weq: "w = map (\<lambda>v. fexp v / sum_list (map fexp (map fst R))) (map fst R)"
    using w by (rule softmax_scores_Some)
  have sR: "s < length R" using sw weq by simp
  have "0 < fexp (map fst R ! s) / sum_list (map fexp (map fst R))"
    using pos sR by (subst (asm) weq) simp
  then obtain x where x: "map fst R ! s = Fin x"
    using positive_weight_Fin by blast
  have "map snd R ! s < length scores \<and> map fst R ! s = scores ! (map snd R ! s)"
    unfolding R_def by (rule nth_ranked) (use sR in \<open>simp add: R_def\<close>)
  then have "map snd R ! s < length scores" and "scores ! (map snd R ! s) = Fin x"
    using x by simp_all
  then show ?thesis using t1 e1 by blast
qed

lemma adaptive_scores_shape:
  assumes "contrastive_logits_adaptive expert_probs amateur_probs alpha = Inr s"
  shows "expert_probs \<noteq> [] \<and> length amateur_probs = length expert_probs"
proof -
  have ne: "expert_probs \<noteq> []"
    using assms by (cases expert_probs) (simp_all add: contrastive_logits_adaptive_def calculate_vhead_def)
  have "length amateur_probs = length expert_probs"
    using assms ne
    by (simp add: contrastive_logits_adaptive_def calculate_vhead_def torch_max_Max index_mask_def
        split: if_splits)
  with ne show ?thesis by simp
qed

lemma adaptive_score_Fin_plausible:
  assumes s: "contrastive_logits_adaptive expert_probs amateur_probs alpha = Inr s"
    and i: "i < length s" and fin: "s ! i = Fin x"
  shows "i < length expert_probs \<and> alpha * Max (set expert_probs) \<le> expert_probs ! i"
proof -
  have ne: "expert_probs \<noteq> []" and len: "length amateur_probs = length expert_probs"
    using adaptive_scores_shape [OF s] by simp_all
  obtain s' where s': "contrastive_logits_adaptive expert_probs amateur_probs alpha = Inr s'"
    and ls: "length s' = length expert_probs"
    and nth: "\<forall>i < length expert_probs.
                s' ! i = (if expert_probs ! i \<ge> alpha * Max (set expert_probs)
                          then fsub (torch_log (expert_probs ! i)) (torch_log (amateur_probs ! i))
                          else NegInf)"
    using adaptive_scores_nth [OF len ne, of alpha] by blast
  have eq: "s' = s" using s s' by simp
  have ie: "i < length expert_probs" using i ls eq by simp
  have "alpha * Max (set expert_probs) \<le> expert_probs ! i"
  proof (rule ccontr)
    assume "\<not> alpha * Max (set expert_probs) \<le> expert_probs ! i"
    then have "s ! i = NegInf" using nth ie eq by simp
    with fin show False by simp
  qed
  with ie show ?thesis by simp
qed

lemma length_softmax [simp]: "length (softmax logits) = length logits"
  by (simp add: softmax_def)

lemma sum_list_exp_pos: "logits \<noteq> [] \<Longrightarrow> 0 < sum_list (map exp (logits :: real list))"
proof (induction logits)
  case Nil then show ?case by simp
next
  case (Cons x xs)
  have "0 \<le> sum_list (map exp xs)" by (rule sum_list_nonneg) auto
  then show ?case using exp_gt_zero [of x] by (simp add: add_pos_nonneg)
qed

lemma softmax_pos: "p \<in> set (softmax logits) \<Longrightarrow> 0 < p"
proof -
  assume "p \<in> set (softmax logits)"
  then obtain x where x: "x \<in> set logits" and p: "p = exp x / sum_list (map exp logits)"
    by (auto simp: softmax_def)
  have "logits \<noteq> []" using x by auto
  then have "0 < sum_list (map exp logits)" by (rule sum_list_exp_pos)
  then show "0 < p" by (simp add: p)
qed

lemma torch_log_pos: "0 < p \<Longrightarrow> torch_log p = Fin (ln p)"
  by (simp add: torch_log_def)

lemma adaptive_scores_wellformed:
  assumes pe: "\<forall>p \<in> set expert_probs. 0 < p" and pa: "\<forall>p \<in> set amateur_probs. 0 < p"
    and len: "length amateur_probs = length expert_probs" and ne: "expert_probs \<noteq> []"
    and a1: "alpha \<le> 1"
  shows "\<exists>s. contrastive_logits_adaptive expert_probs amateur_probs alpha = Inr s \<and>
             length s = length expert_probs \<and>
             (\<forall>v \<in> set s. v = NegInf \<or> (\<exists>x. v = Fin x)) \<and> (\<exists>x. Fin x \<in> set s)"
proof -
  obtain s where s: "contrastive_logits_adaptive expert_probs amateur_probs alpha = Inr s"
    and ls: "length s = length expert_probs"
    and nth: "\<forall>i < length expert_probs.
                s ! i = (if expert_probs ! i \<ge> alpha * Max (set expert_probs)
                         then fsub (torch_log (expert_probs ! i)) (torch_log (amateur_probs ! i))
                         else NegInf)"
    using adaptive_scores_nth [OF len ne, of alpha] by blast
  have entry: "s ! i = NegInf \<or> (\<exists>x. s ! i = Fin x)" if i: "i < length expert_probs" for i
  proof -
    have "0 < expert_probs ! i" using pe i by simp
    moreover have "0 < amateur_probs ! i" using pa i len by simp
    ultimately show ?thesis using nth i by (simp add: torch_log_pos)
  qed
  have all: "\<forall>v \<in> set s. v = NegInf \<or> (\<exists>x. v = Fin x)"
  proof
    fix v assume "v \<in> set s"
    then obtain i where "i < length s" and "s ! i = v" by (auto simp: in_set_conv_nth)
    then show "v = NegInf \<or> (\<exists>x. v = Fin x)" using entry [of i] ls by auto
  qed
  have nonneg: "\<forall>p \<in> set expert_probs. 0 \<le> p" using pe by (auto intro: less_imp_le)
  obtain msk where "calculate_vhead expert_probs alpha = Inr msk"
    and "\<exists>i < length expert_probs. msk ! i"
    using argmax_plausible [OF ne nonneg a1] by blast
  then obtain i where i: "i < length expert_probs"
    and pl: "alpha * Max (set expert_probs) \<le> expert_probs ! i"
    by (auto simp: calculate_vhead_def torch_max_Max [OF ne])
  have "0 < expert_probs ! i" using pe i by simp
  moreover have "0 < amateur_probs ! i" using pa i len by simp
  ultimately have "\<exists>x. s ! i = Fin x" using nth i pl by (simp add: torch_log_pos)
  then obtain x where "s ! i = Fin x" by blast
  then have "Fin x \<in> set s" using i ls by (metis nth_mem)
  with s ls all show ?thesis by blast
qed

lemma plain_scores_wellformed:
  assumes pe: "\<forall>p \<in> set expert_probs. 0 < p" and pa: "\<forall>p \<in> set amateur_probs. 0 < p"
    and len: "length amateur_probs = length expert_probs" and ne: "expert_probs \<noteq> []"
  shows "\<exists>s. contrastive_logits_plain expert_probs amateur_probs = Inr s \<and>
             length s = length expert_probs \<and>
             (\<forall>v \<in> set s. v = NegInf \<or> (\<exists>x. v = Fin x)) \<and> (\<exists>x. Fin x \<in> set s)"
proof -
  define s where "s = map2 fsub (map torch_log expert_probs) (map torch_log amateur_probs)"
  have s: "contrastive_logits_plain expert_probs amateur_probs = Inr s"
    by (simp add: plain_scores_eq [OF len] s_def)
  have ls: "length s = length expert_probs" by (simp add: s_def len)
  have entry: "\<exists>x. s ! i = Fin x" if i: "i < length expert_probs" for i
  proof -
    have "0 < expert_probs ! i" using pe i by simp
    moreover have "0 < amateur_probs ! i" using pa i len by simp
    ultimately show ?thesis using i len by (simp add: s_def torch_log_pos)
  qed
  have all: "\<forall>v \<in> set s. v = NegInf \<or> (\<exists>x. v = Fin x)"
  proof
    fix v assume "v \<in> set s"
    then obtain i where "i < length s" and "s ! i = v" by (auto simp: in_set_conv_nth)
    then show "v = NegInf \<or> (\<exists>x. v = Fin x)" using entry [of i] ls by auto
  qed
  have "0 < length expert_probs" using ne by simp
  then obtain x where "s ! 0 = Fin x" using entry by blast
  then have "Fin x \<in> set s" using ls ne by (metis length_greater_0_conv nth_mem)
  with s ls all show ?thesis by blast
qed

lemma sample_and_append_total:
  assumes len: "50 \<le> length scores"
    and wf: "\<forall>v \<in> set scores. v = NegInf \<or> (\<exists>x. v = Fin x)"
    and fin: "Fin x \<in> set scores"
  shows "\<exists>nexts. sample_and_append tk scores toks = Inr nexts \<and> nexts \<noteq> []"
proof -
  obtain vals idxs w draws where "topk scores 50 = Inr (vals, idxs)"
    and "softmax_scores vals = Some w" and "multinomial (Some w) = Inr draws" and "draws \<noteq> []"
    using pool_draw_exists [OF len wf fin] by blast
  then show ?thesis by (simp add: sample_and_append_def Let_def)
qed

lemma adaptive_scores_shape_fp:
  assumes "contrastive_logits_adaptive_fp ops expert_probs amateur_probs alpha = Inr s"
  shows "expert_probs \<noteq> [] \<and> length amateur_probs = length expert_probs"
proof -
  have ne: "expert_probs \<noteq> []"
    using assms
    by (cases expert_probs) (simp_all add: contrastive_logits_adaptive_fp_def calculate_vhead_fp_def)
  have "length amateur_probs = length expert_probs"
    using assms ne
    by (simp add: contrastive_logits_adaptive_fp_def calculate_vhead_fp_def torch_max_Max index_mask_def
        split: if_splits)
  with ne show ?thesis by simp
qed

lemma adaptive_score_plausible_fp:
  assumes s: "contrastive_logits_adaptive_fp ops expert_probs amateur_probs alpha = Inr s"
    and i: "i < length s" and fin: "s ! i \<noteq> NegInf"
  shows "i < length expert_probs \<and> op_mul ops alpha (Max (set expert_probs)) \<le> expert_probs ! i"
proof -
  have ne: "expert_probs \<noteq> []" and len: "length amateur_probs = length expert_probs"
    using adaptive_scores_shape_fp [OF s] by simp_all
  obtain s' where s': "contrastive_logits_adaptive_fp ops expert_probs amateur_probs alpha = Inr s'"
    and ls: "length s' = length expert_probs"
    and nth: "\<forall>i < length expert_probs.
                s' ! i = (if expert_probs ! i \<ge> op_mul ops alpha (Max (set expert_probs))
                          then op_sub ops (op_log ops (expert_probs ! i)) (op_log ops (amateur_probs ! i))
                          else NegInf)"
    using adaptive_scores_nth_fp [OF len ne, of ops alpha] by blast
  have eq: "s' = s" using s s' by simp
  have ie: "i < length expert_probs" using i ls eq by simp
  have "op_mul ops alpha (Max (set expert_probs)) \<le> expert_probs ! i"
  proof (rule ccontr)
    assume "\<not> op_mul ops alpha (Max (set expert_probs)) \<le> expert_probs ! i"
    then have "s ! i = NegInf" using nth ie eq by simp
    with fin show False by simp
  qed
  with ie show ?thesis by simp
qed

lemma multinomial_nonempty:
  assumes "multinomial probs = Inr draws"
  shows "draws \<noteq> []"
proof -
  obtain w where w: "probs = Some w" using assms by (cases probs) (simp_all add: multinomial_def)
  have nn: "\<forall>p \<in> set w. 0 \<le> p" and pos: "0 < sum_list w"
    and d: "draws = filter (\<lambda>i. w ! i > 0) [0 ..< length w]"
    using assms by (auto simp: multinomial_def w not_less split: if_splits)
  have "\<exists>j < length w. 0 < w ! j"
  proof (rule ccontr)
    assume a: "\<not> (\<exists>j < length w. 0 < w ! j)"
    have "\<forall>p \<in> set w. p \<le> 0"
    proof
      fix p assume "p \<in> set w"
      then obtain j where j: "j < length w" and wj: "w ! j = p" by (auto simp: in_set_conv_nth)
      from a j have "\<not> 0 < w ! j" by blast
      then show "p \<le> 0" using wj by simp
    qed
    then have "sum_list w \<le> 0" by (intro sum_list_nonpos) simp
    with pos show False by simp
  qed
  then obtain j where "j < length w" and "0 < w ! j" by blast
  then have "j \<in> set draws" by (simp add: d)
  then show ?thesis by auto
qed

lemma sample_and_append_fp_cases:
  assumes ok: "sample_and_append_fp ops tk scores toks = Inr nexts"
  shows "\<exists>vals idxs w draws.
           op_topk ops scores 50 = Inr (vals, idxs) \<and> op_softmax_scores ops vals = Some w \<and>
           multinomial (Some w) = Inr draws \<and>
           nexts = map (\<lambda>s. (toks @ [idxs ! s], encode tk (decode tk (toks @ [idxs ! s])))) draws"
proof -
  obtain vals idxs where tk: "op_topk ops scores 50 = Inr (vals, idxs)"
    using ok by (cases "op_topk ops scores 50") (auto simp: sample_and_append_fp_def)
  obtain w where w: "op_softmax_scores ops vals = Some w"
    using ok by (cases "op_softmax_scores ops vals")
      (auto simp: sample_and_append_fp_def tk multinomial_def)
  obtain draws where d: "multinomial (Some w) = Inr draws"
    using ok by (cases "multinomial (Some w)") (auto simp: sample_and_append_fp_def tk w)
  have "nexts = map (\<lambda>s. (toks @ [idxs ! s], encode tk (decode tk (toks @ [idxs ! s])))) draws"
    using ok by (simp add: sample_and_append_fp_def tk w d Let_def)
  with tk w d show ?thesis by blast
qed

lemma sample_and_append_fp_appends:
  assumes ok: "sample_and_append_fp ops tk scores toks = Inr nexts"
  shows "nexts \<noteq> [] \<and>
         (\<forall>toks1 enc1. (toks1, enc1) \<in> set nexts \<longrightarrow>
            (\<exists>tok. toks1 = toks @ [tok] \<and> enc1 = encode tk (decode tk toks1)))"
proof -
  obtain vals idxs w draws where d: "multinomial (Some w) = Inr draws"
    and n: "nexts = map (\<lambda>s. (toks @ [idxs ! s], encode tk (decode tk (toks @ [idxs ! s])))) draws"
    using sample_and_append_fp_cases [OF ok] by blast
  have "draws \<noteq> []" using d by (rule multinomial_nonempty)
  then show ?thesis by (auto simp: n)
qed

lemma sample_and_append_fp_outcome:
  assumes c: "framework_contract ops"
    and ok: "sample_and_append_fp ops tk scores toks = Inr nexts"
    and mem: "(toks1, enc1) \<in> set nexts"
  shows "\<exists>tok. toks1 = toks @ [tok] \<and> enc1 = encode tk (decode tk toks1) \<and>
               tok < length scores \<and> scores ! tok \<noteq> NegInf"
proof -
  obtain vals idxs w draws where tk: "op_topk ops scores 50 = Inr (vals, idxs)"
    and w: "op_softmax_scores ops vals = Some w" and d: "multinomial (Some w) = Inr draws"
    and n: "nexts = map (\<lambda>s. (toks @ [idxs ! s], encode tk (decode tk (toks @ [idxs ! s])))) draws"
    using sample_and_append_fp_cases [OF ok] by blast
  obtain s where s: "s \<in> set draws" and t1: "toks1 = toks @ [idxs ! s]"
    and e1: "enc1 = encode tk (decode tk toks1)"
    using mem by (auto simp: n)
  have sw: "s < length w" and pos: "0 < w ! s" using multinomial_draw [OF d s] by simp_all
  have lw: "length w = length vals" and zero: "\<forall>j < length vals. vals ! j = NegInf \<longrightarrow> w ! j \<le> 0"
    using c w unfolding framework_contract_def by blast+
  have lv: "length vals = length idxs"
    and ent: "\<forall>j < length idxs. idxs ! j < length scores \<and> vals ! j = scores ! (idxs ! j)"
    using c tk unfolding framework_contract_def by blast+
  have sv: "s < length vals" using sw lw by simp
  have "vals ! s \<noteq> NegInf"
  proof
    assume "vals ! s = NegInf"
    then have "w ! s \<le> 0" using zero sv by blast
    with pos show False by simp
  qed
  moreover have "idxs ! s < length scores" and "vals ! s = scores ! (idxs ! s)"
    using ent sv lv by simp_all
  ultimately have "idxs ! s < length scores" and "scores ! (idxs ! s) \<noteq> NegInf" by simp_all
  with t1 e1 show ?thesis by blast
qed

lemma step_adaptive_cases:
  assumes ok: "step_adaptive ops tk expert_model amateur_model alpha (toks, enc) = Inr nexts"
  shows "\<exists>el al s. expert_model enc = Inr el \<and> amateur_model enc = Inr al \<and>
           contrastive_logits_adaptive_fp ops (op_softmax ops el) (op_softmax ops al) alpha = Inr s \<and>
           sample_and_append_fp ops tk s toks = Inr nexts"
proof -
  obtain el where el: "expert_model enc = Inr el"
    using ok by (cases "expert_model enc") (simp_all add: step_adaptive_def)
  obtain al where al: "amateur_model enc = Inr al"
    using ok by (cases "amateur_model enc") (simp_all add: step_adaptive_def el)
  obtain s where s: "contrastive_logits_adaptive_fp ops (op_softmax ops el) (op_softmax ops al) alpha = Inr s"
    using ok by (cases "contrastive_logits_adaptive_fp ops (op_softmax ops el) (op_softmax ops al) alpha")
      (simp_all add: step_adaptive_def el al Let_def)
  have "sample_and_append_fp ops tk s toks = Inr nexts"
    using ok by (simp add: step_adaptive_def el al s Let_def)
  with el al s show ?thesis by blast
qed


lemma step_adaptive_outcome:
  assumes c: "framework_contract ops"
    and ok: "step_adaptive ops tk expert_model amateur_model alpha (toks, enc) = Inr nexts"
    and mem: "(toks1, enc1) \<in> set nexts"
  shows "\<exists>expert_logits tok.
           expert_model enc = Inr expert_logits \<and>
           toks1 = toks @ [tok] \<and> enc1 = encode tk (decode tk toks1) \<and>
           tok < length (op_softmax ops expert_logits) \<and>
           op_mul ops alpha (Max (set (op_softmax ops expert_logits)))
             \<le> op_softmax ops expert_logits ! tok"
proof -
  obtain el al s where el: "expert_model enc = Inr el"
    and s: "contrastive_logits_adaptive_fp ops (op_softmax ops el) (op_softmax ops al) alpha = Inr s"
    and sa: "sample_and_append_fp ops tk s toks = Inr nexts"
    using step_adaptive_cases [OF ok] by blast
  obtain tok where t1: "toks1 = toks @ [tok]" and e1: "enc1 = encode tk (decode tk toks1)"
    and tl: "tok < length s" and fin: "s ! tok \<noteq> NegInf"
    using sample_and_append_fp_outcome [OF c sa mem] by blast
  have "tok < length (op_softmax ops el) \<and>
        op_mul ops alpha (Max (set (op_softmax ops el))) \<le> op_softmax ops el ! tok"
    using s tl fin by (rule adaptive_score_plausible_fp)
  with el t1 e1 show ?thesis by blast
qed

lemma appends_one_adaptive: "appends_one (step_adaptive ops tk expert_model amateur_model alpha)"
  unfolding appends_one_def
proof (intro allI impI)
  fix toks enc nexts toks1 enc1
  assume ok: "step_adaptive ops tk expert_model amateur_model alpha (toks, enc) = Inr nexts"
    and mem: "(toks1, enc1) \<in> set nexts"
  obtain s where "sample_and_append_fp ops tk s toks = Inr nexts"
    using step_adaptive_cases [OF ok] by blast
  then show "\<exists>tok. toks1 = toks @ [tok]"
    using sample_and_append_fp_appends mem by blast
qed




lemma repeat_body_extends:
  assumes b: "appends_one body"
  shows "Inr (toks', enc') \<in> set (repeat_body body n (toks, enc)) \<Longrightarrow>
         length toks' = length toks + n \<and> take (length toks) toks' = toks"
proof (induction n arbitrary: toks enc)
  case 0
  then show ?case by simp
next
  case (Suc n)
  from Suc.prems obtain nexts where nx: "body (toks, enc) = Inr nexts"
    by (cases "body (toks, enc)") auto
  with Suc.prems obtain st1 where st1: "st1 \<in> set nexts"
    and r: "Inr (toks', enc') \<in> set (repeat_body body n st1)"
    by auto
  obtain toks1 enc1 where p: "st1 = (toks1, enc1)" by (cases st1)
  obtain tok where t1: "toks1 = toks @ [tok]"
    using b nx st1 p unfolding appends_one_def by blast
  have "length toks' = length toks1 + n \<and> take (length toks1) toks' = toks1"
    using r p Suc.IH by blast
  then have l: "length toks' = length toks + Suc n" and tk: "take (Suc (length toks)) toks' = toks @ [tok]"
    by (simp_all add: t1)
  have "take (length toks) (take (Suc (length toks)) toks') = take (length toks) (toks @ [tok])"
    by (simp only: tk)
  then have "take (length toks) toks' = toks" by simp
  with l show ?case by simp
qed

lemma repeat_body_total:
  assumes b: "\<And>st. \<exists>nexts. body st = Inr nexts \<and> nexts \<noteq> []"
  shows "repeat_body body n st \<noteq> [] \<and> (\<forall>r \<in> set (repeat_body body n st). \<exists>st'. r = Inr st')"
proof (induction n arbitrary: st)
  case 0
  show ?case by simp
next
  case (Suc n)
  obtain nexts where nx: "body st = Inr nexts" and ne: "nexts \<noteq> []" using b by blast
  obtain st1 rest where nexts: "nexts = st1 # rest" using ne by (cases nexts) auto
  have "repeat_body body n st1 \<noteq> []" using Suc.IH by blast
  then have "concat (map (repeat_body body n) nexts) \<noteq> []" by (simp add: nexts)
  moreover have "\<forall>r \<in> set (concat (map (repeat_body body n) nexts)). \<exists>st'. r = Inr st'"
    using Suc.IH by auto
  ultimately show ?case by (simp add: nx)
qed

lemma repeat_body_step_property:
  assumes b: "appends_one body"
    and P: "\<And>toks enc nexts toks1 enc1.
              body (toks, enc) = Inr nexts \<Longrightarrow> (toks1, enc1) \<in> set nexts \<Longrightarrow> P enc (last toks1)"
  shows "Inr (toks', enc') \<in> set (repeat_body body n (toks, enc)) \<Longrightarrow> t < n \<Longrightarrow>
         \<exists>enc_t. Inr (take (length toks + t) toks', enc_t) \<in> set (repeat_body body t (toks, enc)) \<and>
                 P enc_t (toks' ! (length toks + t))"
proof (induction n arbitrary: toks enc t)
  case 0
  then show ?case by simp
next
  case (Suc n)
  from Suc.prems(1) obtain nexts where nx: "body (toks, enc) = Inr nexts"
    by (cases "body (toks, enc)") auto
  with Suc.prems(1) obtain st1 where st1: "st1 \<in> set nexts"
    and r: "Inr (toks', enc') \<in> set (repeat_body body n st1)"
    by auto
  obtain toks1 enc1 where p: "st1 = (toks1, enc1)" by (cases st1)
  obtain tok where t1: "toks1 = toks @ [tok]"
    using b nx st1 p unfolding appends_one_def by blast
  have r1: "Inr (toks', enc') \<in> set (repeat_body body n (toks1, enc1))" using r p by simp
  have ext: "length toks' = length toks1 + n \<and> take (length toks1) toks' = toks1"
    using repeat_body_extends [OF b r1] .
  show ?case
  proof (cases t)
    case 0
    have "take (length toks) (take (length toks1) toks') = take (length toks) toks1"
      using ext by simp
    then have pre: "take (length toks) toks' = toks" by (simp add: t1)
    have "toks' ! length toks = take (length toks1) toks' ! length toks"
      by (simp add: t1)
    also have "\<dots> = tok" using ext by (simp add: t1)
    finally have tok: "toks' ! length toks = tok" .
    have "P enc (last toks1)" using P nx st1 p by blast
    then have "P enc tok" by (simp add: t1)
    then show ?thesis using pre tok 0 by simp
  next
    case (Suc t')
    then have "t' < n" using Suc.prems(2) by simp
    then obtain enc_t where m: "Inr (take (length toks1 + t') toks', enc_t) \<in> set (repeat_body body t' (toks1, enc1))"
      and pt: "P enc_t (toks' ! (length toks1 + t'))"
      using Suc.IH [OF r1] by blast
    have idx: "length toks1 + t' = length toks + t" by (simp add: t1 Suc)
    have "Inr (take (length toks + t) toks', enc_t) \<in> set (repeat_body body (Suc t') (toks, enc))"
      using m st1 p nx idx by auto
    then show ?thesis using pt idx Suc by auto
  qed
qed


text \<open>The operations of the real numbers satisfy the contract.\<close>

lemma softmax_scores_contract:
  assumes w: "softmax_scores xs = Some w"
  shows "length w = length xs \<and> (\<forall>j < length xs. xs ! j = NegInf \<longrightarrow> w ! j \<le> 0)"
proof -
  have weq: "w = map (\<lambda>v. fexp v / sum_list (map fexp xs)) xs"
    using w by (rule softmax_scores_Some)
  show ?thesis by (simp add: weq)
qed

lemma topk_contract:
  assumes t: "topk xs k = Inr (vals, idxs)"
  shows "length vals = length idxs \<and>
         (\<forall>j < length idxs. idxs ! j < length xs \<and> vals ! j = xs ! (idxs ! j))"
proof -
  have v: "vals = map fst (ranked xs k)" and i: "idxs = map snd (ranked xs k)"
    using t by (auto simp: topk_ranked split: if_splits)
  have "idxs ! j < length xs \<and> vals ! j = xs ! (idxs ! j)" if "j < length idxs" for j
  proof -
    have "j < length (ranked xs k)" using that by (simp add: i)
    then show ?thesis unfolding v i by (rule nth_ranked)
  qed
  then show ?thesis by (simp add: v i)
qed

lemma framework_contract_exact: "framework_contract exact_ops"
  unfolding framework_contract_def
  using softmax_scores_contract topk_contract by simp

text \<open>
  With the operations of the real numbers, scorers over one vocabulary of at least 50
  entries and \<open>alpha \<le> 1\<close>, no step raises, so completed runs exist.
\<close>

lemma step_adaptive_total_exact:
  assumes ok: "scorers_ok expert_model amateur_model" and a1: "alpha \<le> 1"
  shows "\<exists>nexts. step_adaptive exact_ops tk expert_model amateur_model alpha st = Inr nexts \<and> nexts \<noteq> []"
proof -
  obtain toks enc where st: "st = (toks, enc)" by (cases st)
  obtain el al where el: "expert_model enc = Inr el" and al: "amateur_model enc = Inr al"
    and l50: "50 \<le> length el" and len: "length al = length el"
    using ok unfolding scorers_ok_def by blast
  have ne: "softmax el \<noteq> []" using l50 by (auto simp: softmax_def)
  obtain s x where s: "contrastive_logits_adaptive (softmax el) (softmax al) alpha = Inr s"
    and ls: "length s = length (softmax el)"
    and wf: "\<forall>v \<in> set s. v = NegInf \<or> (\<exists>x. v = Fin x)" and fin: "Fin x \<in> set s"
    using adaptive_scores_wellformed [of "softmax el" "softmax al" alpha] softmax_pos len ne a1
    by auto
  have "50 \<le> length s" using ls l50 by simp
  then obtain nexts where "sample_and_append tk s toks = Inr nexts" and "nexts \<noteq> []"
    using sample_and_append_total [OF _ wf fin] by blast
  then show ?thesis
    by (simp add: step_adaptive_def st el al s Let_def contrastive_logits_adaptive_exact
        sample_and_append_exact)
qed

lemma step_plain_total_exact:
  assumes ok: "scorers_ok expert_model amateur_model"
  shows "\<exists>nexts. step_plain exact_ops tk expert_model amateur_model st = Inr nexts \<and> nexts \<noteq> []"
proof -
  obtain toks enc where st: "st = (toks, enc)" by (cases st)
  obtain el al where el: "expert_model enc = Inr el" and al: "amateur_model enc = Inr al"
    and l50: "50 \<le> length el" and len: "length al = length el"
    using ok unfolding scorers_ok_def by blast
  have ne: "softmax el \<noteq> []" using l50 by (auto simp: softmax_def)
  obtain s x where s: "contrastive_logits_plain (softmax el) (softmax al) = Inr s"
    and ls: "length s = length (softmax el)"
    and wf: "\<forall>v \<in> set s. v = NegInf \<or> (\<exists>x. v = Fin x)" and fin: "Fin x \<in> set s"
    using plain_scores_wellformed [of "softmax el" "softmax al"] softmax_pos len ne
    by auto
  have "50 \<le> length s" using ls l50 by simp
  then obtain nexts where "sample_and_append tk s toks = Inr nexts" and "nexts \<noteq> []"
    using sample_and_append_total [OF _ wf fin] by blast
  then show ?thesis
    by (simp add: step_plain_def st el al s Let_def contrastive_logits_plain_exact
        sample_and_append_exact)
qed

lemma scorers_ok_peaked: "scorers_ok peaked_scorer flat_scorer"
  by (simp add: scorers_ok_def flat_scorer_def peaked_scorer_def)

lemma softmax_peaked: "softmax (ln 51 # replicate 49 0) = peaked_expert"
proof -
  have "sum_list (map exp (ln 51 # replicate 49 (0 :: real))) = 100"
    by (simp add: sum_list_replicate)
  then show ?thesis by (simp add: softmax_def peaked_expert_def)
qed

lemma peaked_mask:
  "calculate_vhead peaked_expert (1/2) = Inr (True # replicate 49 False)"
proof -
  have ne: "peaked_expert \<noteq> []" by (simp add: peaked_expert_def)
  have mx: "Max (set peaked_expert) = 51/100" by (simp add: peaked_expert_def)
  have tm: "torch_max peaked_expert = Inr (51/100)"
    using torch_max_Max [OF ne] by (simp add: mx)
  have "calculate_vhead peaked_expert (1/2) = Inr (map (\<lambda>p. p \<ge> 1/2 * (51/100)) peaked_expert)"
    by (simp add: calculate_vhead_def tm)
  also have "map (\<lambda>p. p \<ge> 1/2 * (51/100)) peaked_expert = True # replicate 49 False"
    by (simp add: peaked_expert_def)
  finally show ?thesis .
qed

lemma completed_run_exists:
  assumes ok: "scorers_ok expert_model amateur_model" and a1: "alpha \<le> 1"
  shows "\<exists>toks enc. Inr (toks, enc)
           \<in> set (decoding_loop_adaptive exact_ops tk encoding expert_model amateur_model N alpha)"
    and "\<exists>toks enc. Inr (toks, enc)
           \<in> set (decoding_loop_plain exact_ops tk encoding expert_model amateur_model N)"
proof -
  have t: "repeat_body (step_adaptive exact_ops tk expert_model amateur_model alpha) (nat N) (encoding, encoding) \<noteq> [] \<and>
        (\<forall>r \<in> set (repeat_body (step_adaptive exact_ops tk expert_model amateur_model alpha) (nat N) (encoding, encoding)).
           \<exists>st'. r = Inr st')"
    by (rule repeat_body_total) (rule step_adaptive_total_exact [OF ok a1])
  then obtain r where r: "r \<in> set (repeat_body (step_adaptive exact_ops tk expert_model amateur_model alpha) (nat N) (encoding, encoding))"
    by (cases "repeat_body (step_adaptive exact_ops tk expert_model amateur_model alpha) (nat N) (encoding, encoding)") auto
  with t obtain st' where "r = Inr st'" by blast
  with r show "\<exists>toks enc. Inr (toks, enc)
           \<in> set (decoding_loop_adaptive exact_ops tk encoding expert_model amateur_model N alpha)"
    by (cases st') (auto simp: decoding_loop_adaptive_def for_range_def)
  have t: "repeat_body (step_plain exact_ops tk expert_model amateur_model) (nat N) (encoding, encoding) \<noteq> [] \<and>
        (\<forall>r \<in> set (repeat_body (step_plain exact_ops tk expert_model amateur_model) (nat N) (encoding, encoding)).
           \<exists>st'. r = Inr st')"
    by (rule repeat_body_total) (rule step_plain_total_exact [OF ok])
  then obtain r where r: "r \<in> set (repeat_body (step_plain exact_ops tk expert_model amateur_model) (nat N) (encoding, encoding))"
    by (cases "repeat_body (step_plain exact_ops tk expert_model amateur_model) (nat N) (encoding, encoding)") auto
  with t obtain st' where "r = Inr st'" by blast
  with r show "\<exists>toks enc. Inr (toks, enc)
           \<in> set (decoding_loop_plain exact_ops tk encoding expert_model amateur_model N)"
    by (cases st') (auto simp: decoding_loop_plain_def for_range_def)
qed

text \<open>
  C3.  In every run of the adaptive loop that completes \<open>N\<close> steps, at every step
  \<open>t < N\<close>: the run passed through a state whose tokens are the first \<open>L + t\<close> tokens of
  the result, and the token appended at that step satisfies the plausibility mask computed
  from the expert's distribution in that state:
  \<open>expert_probs[token] >= alpha * max(expert_probs)\<close>, softmax and product being the
  framework's.  A token at a masked-out position is never appended.  This holds for every
  arithmetic in which a softmax gives no positive weight to a score of minus infinity and
  \<open>torch.topk\<close> returns positions of its input with their values, whatever order it
  gives to equal scores.  In the run of the witness the mask is false at every position
  but one.
\<close>

theorem adaptive_run_mask_invariant:
  assumes c: "framework_contract ops"
    and run: "Inr (toks', enc')
                \<in> set (decoding_loop_adaptive ops tk encoding expert_model amateur_model N alpha)"
    and t: "int t < N"
  shows "\<exists>enc_t expert_logits msk.
           Inr (take (length encoding + t) toks', enc_t)
             \<in> set (decoding_loop_adaptive ops tk encoding expert_model amateur_model (int t) alpha) \<and>
           expert_model enc_t = Inr expert_logits \<and>
           calculate_vhead_fp ops (op_softmax ops expert_logits) alpha = Inr msk \<and>
           toks' ! (length encoding + t) < length msk \<and>
           msk ! (toks' ! (length encoding + t)) \<and>
           op_mul ops alpha (Max (set (op_softmax ops expert_logits)))
             \<le> op_softmax ops expert_logits ! (toks' ! (length encoding + t))"
proof -
  define P where "P = (\<lambda>enc tok. \<exists>el. expert_model enc = Inr el \<and> tok < length (op_softmax ops el) \<and>
                         op_mul ops alpha (Max (set (op_softmax ops el))) \<le> op_softmax ops el ! tok)"
  have step: "P enc (last toks1)"
    if "step_adaptive ops tk expert_model amateur_model alpha (toks, enc) = Inr nexts"
      and "(toks1, enc1) \<in> set nexts" for toks enc nexts toks1 enc1
    using step_adaptive_outcome [OF c that] unfolding P_def by auto
  have tn: "t < nat N" using t by simp
  have "\<exists>enc_t. Inr (take (length encoding + t) toks', enc_t)
            \<in> set (repeat_body (step_adaptive ops tk expert_model amateur_model alpha) t (encoding, encoding)) \<and>
          P enc_t (toks' ! (length encoding + t))"
  proof (rule repeat_body_step_property [where n = "nat N" and enc' = enc'])
    show "appends_one (step_adaptive ops tk expert_model amateur_model alpha)"
      by (rule appends_one_adaptive)
    show "P enc (last toks1)"
      if "step_adaptive ops tk expert_model amateur_model alpha (toks, enc) = Inr nexts"
        and "(toks1, enc1) \<in> set nexts" for toks enc nexts toks1 enc1
      using that by (rule step)
    show "Inr (toks', enc')
            \<in> set (repeat_body (step_adaptive ops tk expert_model amateur_model alpha) (nat N) (encoding, encoding))"
      using run by (simp add: decoding_loop_adaptive_def for_range_def)
    show "t < nat N" by (rule tn)
  qed
  then obtain enc_t where m: "Inr (take (length encoding + t) toks', enc_t)
        \<in> set (repeat_body (step_adaptive ops tk expert_model amateur_model alpha) t (encoding, encoding))"
    and pt: "P enc_t (toks' ! (length encoding + t))"
    by blast
  obtain el where el: "expert_model enc_t = Inr el"
    and tl: "toks' ! (length encoding + t) < length (op_softmax ops el)"
    and pl: "op_mul ops alpha (Max (set (op_softmax ops el)))
               \<le> op_softmax ops el ! (toks' ! (length encoding + t))"
    using pt unfolding P_def by blast
  have ne: "op_softmax ops el \<noteq> []" using tl by auto
  define msk where "msk = map (\<lambda>p. p \<ge> op_mul ops alpha (Max (set (op_softmax ops el)))) (op_softmax ops el)"
  have cv: "calculate_vhead_fp ops (op_softmax ops el) alpha = Inr msk"
    by (simp add: calculate_vhead_fp_def torch_max_Max [OF ne] msk_def)
  have l: "toks' ! (length encoding + t) < length msk" using tl by (simp add: msk_def)
  have mt: "msk ! (toks' ! (length encoding + t))" using tl pl by (simp add: msk_def)
  have m': "Inr (take (length encoding + t) toks', enc_t)
             \<in> set (decoding_loop_adaptive ops tk encoding expert_model amateur_model (int t) alpha)"
    using m by (simp add: decoding_loop_adaptive_def for_range_def)
  show ?thesis using m' el cv l mt pl by blast
qed

theorem adaptive_run_mask_invariant_witness:
  "framework_contract exact_ops \<and>
   (\<exists>toks' enc'.
     Inr (toks', enc') \<in> set (decoding_loop_adaptive exact_ops tk0 [7, 8] peaked_scorer flat_scorer 2 (1 / 2)) \<and>
     int 1 < 2 \<and>
     (\<exists>enc_t expert_logits msk.
           Inr (take (length [7, 8 :: nat] + 1) toks', enc_t)
             \<in> set (decoding_loop_adaptive exact_ops tk0 [7, 8] peaked_scorer flat_scorer (int 1) (1 / 2)) \<and>
           peaked_scorer enc_t = Inr expert_logits \<and>
           calculate_vhead_fp exact_ops (op_softmax exact_ops expert_logits) (1 / 2) = Inr msk \<and>
           toks' ! (length [7, 8 :: nat] + 1) < length msk \<and>
           msk ! (toks' ! (length [7, 8 :: nat] + 1)) \<and>
           \<not> msk ! 1 \<and> toks' ! (length [7, 8 :: nat] + 1) \<noteq> 1))"
proof -
  have a: "(1 / 2 :: real) \<le> 1" by simp
  obtain toks' enc' where run: "Inr (toks', enc')
      \<in> set (decoding_loop_adaptive exact_ops tk0 [7, 8] peaked_scorer flat_scorer 2 (1 / 2))"
    using completed_run_exists(1) [OF scorers_ok_peaked a] by blast
  have one: "int 1 < 2" by simp
  obtain enc_t expert_logits msk where
    m: "Inr (take (length [7, 8 :: nat] + 1) toks', enc_t)
             \<in> set (decoding_loop_adaptive exact_ops tk0 [7, 8] peaked_scorer flat_scorer (int 1) (1 / 2))"
    and el: "peaked_scorer enc_t = Inr expert_logits"
    and cv: "calculate_vhead_fp exact_ops (op_softmax exact_ops expert_logits) (1 / 2) = Inr msk"
    and l: "toks' ! (length [7, 8 :: nat] + 1) < length msk"
    and mt: "msk ! (toks' ! (length [7, 8 :: nat] + 1))"
    using adaptive_run_mask_invariant [OF framework_contract_exact run one] by blast
  have "expert_logits = ln 51 # replicate 49 0" using el by (simp add: peaked_scorer_def)
  then have "calculate_vhead peaked_expert (1/2) = Inr msk"
    using cv by (simp add: calculate_vhead_exact softmax_peaked)
  then have msk: "msk = True # replicate 49 False" by (simp add: peaked_mask)
  have n1: "\<not> msk ! 1" by (simp add: msk)
  have "toks' ! (length [7, 8 :: nat] + 1) \<noteq> 1" using mt n1 by auto
  then show ?thesis using framework_contract_exact run one m el cv l mt n1 by blast
qed




section \<open>Properties of forward\<close>

lemma forward_ok_unused_proj:
  "forward_ok (self\<lparr>key_proj := k', value_proj := v'\<rparr>) query key val = forward_ok self query key val"
  by (simp add: forward_ok_def)

lemma attend_head_unused_proj:
  "attend_head (self\<lparr>key_proj := k', value_proj := v'\<rparr>) h q K V m = attend_head self h q K V m"
  by (simp add: attend_head_def)

lemma attend_position_unused_proj:
  "attend_position (self\<lparr>key_proj := k', value_proj := v'\<rparr>) q K V m = attend_position self q K V m"
  by (simp add: attend_position_def attend_head_unused_proj Let_def)

text \<open>
  C1.  The claim asks for three independent projections, so that perturbing the weights
  of the key projection alone changes the output for some input.  The code projects the
  key and the value with \<open>self.query\<close>: whatever replaces \<open>self.key\<close> and \<open>self.value\<close>,
  \<open>forward\<close> returns the same output on every input.
\<close>

theorem forward_ignores_key_proj:
  "forward (self\<lparr>key_proj := k', value_proj := v'\<rparr>) query key val msk = forward self query key val msk"
  by (simp add: forward_def forward_ok_unused_proj attend_position_unused_proj)

lemma small_ok: "forward_ok small_attention seq_a seq_a seq_a"
  by (simp add: forward_ok_def small_attention_def identity_linear_def seq_a_def is_tensor_def linear_ok_def)

lemma is_tensor_nth:
  assumes "is_tensor B L D X" and "b < length X"
  shows "length (X ! b) = L"
  using assms by (simp add: is_tensor_def list_all_length)

lemma forward_nth:
  assumes ok: "forward_ok self query key val" and b: "b < length query" and i: "i < length (query ! b)"
  shows "\<exists>out. forward self query key val msk = Some out \<and>
           out ! b ! i = attend_position self (linear_apply (query_proj self) (query ! b ! i))
                           (map (linear_apply (query_proj self)) (key ! b))
                           (map (linear_apply (query_proj self)) (val ! b))
                           (\<lambda>h. map_option (\<lambda>m. m b h i) msk)"
proof -
  have lk: "length key = length query" and lv: "length val = length query"
    using ok by (simp_all add: forward_ok_def is_tensor_def)
  show ?thesis
    using ok b i lk lv by (simp add: forward_def Let_def)
qed

theorem forward_ignores_key_proj_witness:
  "\<exists>out. forward small_attention seq_a seq_a seq_a None = Some out \<and>
         forward (small_attention\<lparr>key_proj := swapped_linear, value_proj := swapped_linear\<rparr>)
           seq_a seq_a seq_a None = Some out \<and>
         key_proj (small_attention\<lparr>key_proj := swapped_linear, value_proj := swapped_linear\<rparr>)
           \<noteq> key_proj small_attention"
proof -
  have "(0 :: nat) < length seq_a" and "0 < length (seq_a ! 0)" by (simp_all add: seq_a_def)
  then obtain out where "forward small_attention seq_a seq_a seq_a None = Some out"
    using forward_nth [OF small_ok, of 0 0 None] by blast
  moreover have "key_proj (small_attention\<lparr>key_proj := swapped_linear, value_proj := swapped_linear\<rparr>)
                   \<noteq> key_proj small_attention"
    by (simp add: small_attention_def swapped_linear_def identity_linear_def)
  ultimately show ?thesis
    using forward_ignores_key_proj [where self = small_attention and k' = swapped_linear
        and v' = swapped_linear and query = seq_a and key = seq_a and val = seq_a and msk = None]
    by simp
qed

section \<open>Properties of forward in floating point\<close>

text \<open>The operations with the special values satisfy the contract.\<close>

lemma ieee_ops_sel [simp]:
  "a_mul ieee_ops = fmul" "a_add ieee_ops = fadd" "a_sum ieee_ops = foldl fadd (Fin 0)"
  "a_div ieee_ops = fdiv" "a_softmax ieee_ops = fsoftmax"
  by (simp_all add: ieee_ops_def)

lemma overflow_zero [simp]: "overflow 0 = Fin 0"
  by (simp add: overflow_def f32_max_def)

lemma length_fsoftmax [simp]: "length (fsoftmax xs) = length xs"
  using softmax_scores_contract [of xs]
  by (cases "softmax_scores xs") (simp_all add: fsoftmax_def)

lemma fsoftmax_NegInf:
  assumes "j < length xs" and "xs ! j = NegInf"
  shows "fsoftmax xs ! j = Fin 0 \<or> fsoftmax xs ! j = NaN"
proof (cases "softmax_scores xs")
  case None
  then show ?thesis using assms by (simp add: fsoftmax_def)
next
  case (Some w)
  then have "w = map (\<lambda>v. fexp v / sum_list (map fexp xs)) xs" by (rule softmax_scores_Some)
  then show ?thesis using assms Some by (simp add: fsoftmax_def)
qed

lemma attn_contract_ieee: "attn_contract ieee_ops"
  unfolding attn_contract_def using fsoftmax_NegInf by simp

text \<open>In floating point too, \<open>forward\<close> reads neither \<open>self.key\<close> nor \<open>self.value\<close>.\<close>

lemma forward_ok_fp_unused_proj:
  "forward_ok_fp (self\<lparr>key_proj := k', value_proj := v'\<rparr>) query key val = forward_ok_fp self query key val"
  by (simp add: forward_ok_fp_def)

lemma attend_head_fp_unused_proj:
  "attend_head_fp ar (self\<lparr>key_proj := k', value_proj := v'\<rparr>) h q K V m = attend_head_fp ar self h q K V m"
  by (simp add: attend_head_fp_def)

lemma attend_position_fp_unused_proj:
  "attend_position_fp ar (self\<lparr>key_proj := k', value_proj := v'\<rparr>) q K V m = attend_position_fp ar self q K V m"
  by (simp add: attend_position_fp_def attend_head_fp_unused_proj)

lemma forward_fp_unused_proj:
  "forward_fp ar (self\<lparr>key_proj := k', value_proj := v'\<rparr>) query key val msk
     = forward_fp ar self query key val msk"
  by (simp add: forward_fp_def forward_ok_fp_unused_proj attend_position_fp_unused_proj)

lemma attend_head_fp_prefix:
  assumes c: "attn_contract ar"
    and m: "\<forall>j. n \<le> j \<longrightarrow> \<not> m j"
    and K: "take n K = take n K'" and lK: "length K' = length K"
    and V: "take n V = take n V'" and lV: "length V = length K" "length V' = length K"
    and fin: "\<forall>j c. n \<le> j \<longrightarrow> j < length V \<longrightarrow> c < nat (head_dim self) \<longrightarrow>
                is_finite (take (nat (head_dim self)) (drop (h * nat (head_dim self)) (V ! j)) ! c)"
    and fin': "\<forall>j c. n \<le> j \<longrightarrow> j < length V' \<longrightarrow> c < nat (head_dim self) \<longrightarrow>
                is_finite (take (nat (head_dim self)) (drop (h * nat (head_dim self)) (V' ! j)) ! c)"
  shows "attend_head_fp ar self h q K V (Some m) = attend_head_fp ar self h q K' V' (Some m)"
proof -
  define d where "d = nat (head_dim self)"
  define qh where "qh = take d (drop (h * d) q)"
  define f where "f = (\<lambda>k :: fval list. take d (drop (h * d) k))"
  define sc where "sc = (\<lambda>Ks. map (\<lambda>(j, s). if m j = False then NegInf else s)
                           (enumerate 0 (map (\<lambda>k. a_div ar (a_sum ar (map2 (a_mul ar) qh k)) (Fin (scale self)))
                                          (map f Ks))))"
  have mul0: "a_mul ar (Fin 0) (Fin v) = Fin 0" for v
    using c unfolding attn_contract_def by blast
  have mulN: "a_mul ar NaN x = NaN" for x
    using c unfolding attn_contract_def by blast
  have sml: "length (a_softmax ar xs) = length xs" for xs
    using c unfolding attn_contract_def by blast
  have smz: "a_softmax ar xs ! j = Fin 0 \<or> a_softmax ar xs ! j = NaN"
    if "j < length xs" and "xs ! j = NegInf" for xs j
    using c that unfolding attn_contract_def by blast
  have nthK: "K ! j = K' ! j" if "j < n" for j
    using K that by (metis nth_take)
  have nthV: "V ! j = V' ! j" if "j < n" for j
    using V that by (metis nth_take)
  have lsc: "length (sc Ks) = length Ks" for Ks by (simp add: sc_def)
  have sc_eq: "sc K = sc K'"
  proof (rule nth_equalityI)
    show "length (sc K) = length (sc K')" by (simp add: lsc lK)
  next
    fix j assume "j < length (sc K)"
    then have j: "j < length K" by (simp add: lsc)
    show "sc K ! j = sc K' ! j"
    proof (cases "j < n")
      case True
      then show ?thesis using j lK nthK by (simp add: sc_def nth_enumerate_eq)
    next
      case False
      then have "\<not> m j" using m by simp
      then show ?thesis using j lK by (simp add: sc_def nth_enumerate_eq)
    qed
  qed
  define w where "w = a_softmax ar (sc K)"
  have lw: "length w = length K" by (simp add: w_def sml lsc)
  have ws: "map2 (\<lambda>wj vj. a_mul ar wj (vj ! c)) w (map f V) = map2 (\<lambda>wj vj. a_mul ar wj (vj ! c)) w (map f V')"
    if cd: "c < d" for c
  proof (rule nth_equalityI)
    show "length (map2 (\<lambda>wj vj. a_mul ar wj (vj ! c)) w (map f V))
            = length (map2 (\<lambda>wj vj. a_mul ar wj (vj ! c)) w (map f V'))"
      by (simp add: lV)
  next
    fix j assume "j < length (map2 (\<lambda>wj vj. a_mul ar wj (vj ! c)) w (map f V))"
    then have jw: "j < length w" and jV: "j < length V" by simp_all
    have jV': "j < length V'" using jV lV by simp
    have jK: "j < length K" using jV lV by simp
    show "map2 (\<lambda>wj vj. a_mul ar wj (vj ! c)) w (map f V) ! j
            = map2 (\<lambda>wj vj. a_mul ar wj (vj ! c)) w (map f V') ! j"
    proof (cases "j < n")
      case True
      then show ?thesis using jw jV jV' nthV by simp
    next
      case False
      then have nj: "n \<le> j" by simp
      then have "\<not> m j" using m by simp
      then have "sc K ! j = NegInf" using jK by (simp add: sc_def nth_enumerate_eq)
      then have wz: "w ! j = Fin 0 \<or> w ! j = NaN"
        unfolding w_def using smz [of j "sc K"] jK by (simp add: lsc)
      have "is_finite (f (V ! j) ! c)"
        unfolding f_def d_def using fin nj jV cd unfolding d_def by blast
      then obtain v where v: "f (V ! j) ! c = Fin v"
        by (cases "f (V ! j) ! c") simp_all
      have "is_finite (f (V' ! j) ! c)"
        unfolding f_def d_def using fin' nj jV' cd unfolding d_def by blast
      then obtain v' where v': "f (V' ! j) ! c = Fin v'"
        by (cases "f (V' ! j) ! c") simp_all
      have "a_mul ar (w ! j) (f (V ! j) ! c) = a_mul ar (w ! j) (f (V' ! j) ! c)"
        using wz by (auto simp: v v' mul0 mulN)
      then show ?thesis using jw jV jV' by simp
    qed
  qed
  have expand: "attend_head_fp ar self h q Ks Vs (Some m)
          = map (\<lambda>c. a_sum ar (map2 (\<lambda>wj vj. a_mul ar wj (vj ! c)) (a_softmax ar (sc Ks)) (map f Vs))) [0 ..< d]"
    for Ks Vs
    by (simp add: attend_head_fp_def Let_def d_def qh_def f_def sc_def)
  have "attend_head_fp ar self h q K V (Some m)
          = map (\<lambda>c. a_sum ar (map2 (\<lambda>wj vj. a_mul ar wj (vj ! c)) w (map f V))) [0 ..< d]"
    unfolding w_def by (rule expand)
  also have "\<dots> = map (\<lambda>c. a_sum ar (map2 (\<lambda>wj vj. a_mul ar wj (vj ! c)) w (map f V'))) [0 ..< d]"
    by (rule map_cong) (simp_all add: ws)
  also have "\<dots> = map (\<lambda>c. a_sum ar (map2 (\<lambda>wj vj. a_mul ar wj (vj ! c)) (a_softmax ar (sc K')) (map f V'))) [0 ..< d]"
    by (simp only: w_def sc_eq)
  also have "\<dots> = attend_head_fp ar self h q K' V' (Some m)"
    by (rule expand [symmetric])
  finally show ?thesis .
qed

lemma slice_finite:
  assumes row: "list_all is_finite r" and len: "length r = H * d" and h: "h < H" and c: "c < d"
  shows "is_finite (take d (drop (h * d) r) ! c)"
proof -
  have "h * d + d \<le> H * d"
  proof -
    have "Suc h \<le> H" using h by simp
    then have "Suc h * d \<le> H * d" by (rule mult_le_mono1)
    then show ?thesis by (simp add: add.commute)
  qed
  then have i: "h * d + c < length r" using c len by simp
  have "take d (drop (h * d) r) ! c = r ! (h * d + c)" using c i by simp
  moreover have "is_finite (r ! (h * d + c))" using row i by (simp add: list_all_length)
  ultimately show ?thesis by simp
qed

lemma attend_position_fp_prefix:
  assumes c: "attn_contract ar"
    and m: "\<And>h j. n \<le> j \<Longrightarrow> \<not> m h j"
    and K: "take n K = take n K'" and lK: "length K' = length K"
    and V: "take n V = take n V'" and lV: "length V = length K" "length V' = length K"
    and fin: "\<forall>j. n \<le> j \<longrightarrow> j < length V \<longrightarrow>
                list_all is_finite (V ! j) \<and> length (V ! j) = nat (num_heads self) * nat (head_dim self)"
    and fin': "\<forall>j. n \<le> j \<longrightarrow> j < length V' \<longrightarrow>
                list_all is_finite (V' ! j) \<and> length (V' ! j) = nat (num_heads self) * nat (head_dim self)"
  shows "attend_position_fp ar self q K V (\<lambda>h. Some (m h)) = attend_position_fp ar self q K' V' (\<lambda>h. Some (m h))"
proof -
  have "attend_head_fp ar self h q K V (Some (m h)) = attend_head_fp ar self h q K' V' (Some (m h))"
    if h: "h < nat (num_heads self)" for h
  proof (rule attend_head_fp_prefix [OF c _ K lK V lV])
    show "\<forall>j. n \<le> j \<longrightarrow> \<not> m h j" using m by blast
    show "\<forall>j c. n \<le> j \<longrightarrow> j < length V \<longrightarrow> c < nat (head_dim self) \<longrightarrow>
                is_finite (take (nat (head_dim self)) (drop (h * nat (head_dim self)) (V ! j)) ! c)"
      using fin h slice_finite by blast
    show "\<forall>j c. n \<le> j \<longrightarrow> j < length V' \<longrightarrow> c < nat (head_dim self) \<longrightarrow>
                is_finite (take (nat (head_dim self)) (drop (h * nat (head_dim self)) (V' ! j)) ! c)"
      using fin' h slice_finite by blast
  qed
  then have eq: "map (\<lambda>h. attend_head_fp ar self h q K V (Some (m h))) [0 ..< nat (num_heads self)]
           = map (\<lambda>h. attend_head_fp ar self h q K' V' (Some (m h))) [0 ..< nat (num_heads self)]"
    by (intro map_cong) simp_all
  show ?thesis by (simp only: attend_position_fp_def Let_def eq)
qed

lemma is_tensor_fp_nth:
  assumes "is_tensor_fp B L D X" and "b < length X"
  shows "length (X ! b) = L"
  using assms by (simp add: is_tensor_fp_def list_all_length)

lemma length_linear_apply_fp:
  "linear_ok n l \<Longrightarrow> length (linear_apply_fp ar l x) = n"
  by (simp add: linear_ok_def linear_apply_fp_def)

lemma forward_fp_nth:
  assumes ok: "forward_ok_fp self query key val" and b: "b < length query" and i: "i < length (query ! b)"
  shows "\<exists>out. forward_fp ar self query key val msk = Some out \<and>
           out ! b ! i = attend_position_fp ar self (linear_apply_fp ar (query_proj self) (query ! b ! i))
                           (map (linear_apply_fp ar (query_proj self)) (key ! b))
                           (map (linear_apply_fp ar (query_proj self)) (val ! b))
                           (\<lambda>h. map_option (\<lambda>m. m b h i) msk)"
proof -
  have lk: "length key = length query" and lv: "length val = length query"
    using ok by (simp_all add: forward_ok_fp_def is_tensor_fp_def)
  show ?thesis
    using ok b i lk lv by (simp add: forward_fp_def Let_def)
qed

text \<open>
  C8 (amended).  Under the lower-triangular causal mask, the output at query position \<open>i\<close>
  of a batch entry is the same for any two calls whose queries agree at position \<open>i\<close> and
  whose keys and values agree at all positions \<open>j \<le> i\<close>, provided that in both calls the
  projected values at the positions \<open>j > i\<close> are finite.  Nothing is asked of the keys at
  those positions.  In self-attention the three inputs are one sequence, and two sequences
  that agree up to position \<open>i\<close> satisfy the conditions on the agreement.
\<close>

theorem causal_mask_no_future_leak:
  assumes c: "attn_contract ar"
    and ok: "forward_ok_fp self query key val" and ok': "forward_ok_fp self query' key' val'"
    and b: "b < length query" and i: "i < length (query ! b)"
    and shape: "length query' = length query" "length (query' ! b) = length (query ! b)"
               "length (key' ! b) = length (key ! b)"
    and q: "query' ! b ! i = query ! b ! i"
    and k: "take (Suc i) (key' ! b) = take (Suc i) (key ! b)"
    and v: "take (Suc i) (val' ! b) = take (Suc i) (val ! b)"
    and fin: "\<forall>j. i < j \<longrightarrow> j < length (val ! b) \<longrightarrow>
                list_all is_finite (linear_apply_fp ar (query_proj self) (val ! b ! j))"
    and fin': "\<forall>j. i < j \<longrightarrow> j < length (val' ! b) \<longrightarrow>
                list_all is_finite (linear_apply_fp ar (query_proj self) (val' ! b ! j))"
  shows "\<exists>out out'. forward_fp ar self query key val (Some tril) = Some out \<and>
                     forward_fp ar self query' key' val' (Some tril) = Some out' \<and>
                     out' ! b ! i = out ! b ! i"
proof -
  define P where "P = linear_apply_fp ar (query_proj self)"
  have b': "b < length query'" and i': "i < length (query' ! b)" using b i shape by simp_all
  obtain out where out: "forward_fp ar self query key val (Some tril) = Some out"
    and o: "out ! b ! i = attend_position_fp ar self (P (query ! b ! i)) (map P (key ! b)) (map P (val ! b))
                            (\<lambda>h. Some (tril b h i))"
    using forward_fp_nth [OF ok b i, of ar "Some tril"] by (auto simp: P_def)
  obtain out' where out': "forward_fp ar self query' key' val' (Some tril) = Some out'"
    and o': "out' ! b ! i = attend_position_fp ar self (P (query' ! b ! i)) (map P (key' ! b)) (map P (val' ! b))
                            (\<lambda>h. Some (tril b h i))"
    using forward_fp_nth [OF ok' b' i', of ar "Some tril"] by (auto simp: P_def)
  have bk: "b < length key" "b < length val" "b < length key'" "b < length val'"
    using ok ok' b b' by (simp_all add: forward_ok_fp_def is_tensor_fp_def)
  have tk: "is_tensor_fp (length query) (length (hd key)) (nat (hidden_size self)) key"
    and tv: "is_tensor_fp (length query) (length (hd key)) (nat (hidden_size self)) val"
    using ok unfolding forward_ok_fp_def by blast+
  have tk': "is_tensor_fp (length query') (length (hd key')) (nat (hidden_size self)) key'"
    and tv': "is_tensor_fp (length query') (length (hd key')) (nat (hidden_size self)) val'"
    using ok' unfolding forward_ok_fp_def by blast+
  have lv: "length (val ! b) = length (key ! b)"
    using is_tensor_fp_nth [OF tk bk(1)] is_tensor_fp_nth [OF tv bk(2)] by simp
  have lv': "length (val' ! b) = length (key' ! b)"
    using is_tensor_fp_nth [OF tk' bk(3)] is_tensor_fp_nth [OF tv' bk(4)] by simp
  have lin: "linear_ok (nat (hidden_size self)) (query_proj self)"
    and hs: "hidden_size self = num_heads self * head_dim self"
    and pos: "0 < num_heads self" "0 < head_dim self"
    using ok unfolding forward_ok_fp_def by blast+
  have hd: "nat (hidden_size self) = nat (num_heads self) * nat (head_dim self)"
    using hs pos by (simp add: nat_mult_distrib)
  have lP: "length (P x) = nat (num_heads self) * nat (head_dim self)" for x
    unfolding P_def using length_linear_apply_fp [OF lin] hd by simp
  have "attend_position_fp ar self (P (query ! b ! i)) (map P (key ! b)) (map P (val ! b)) (\<lambda>h. Some (tril b h i))
      = attend_position_fp ar self (P (query ! b ! i)) (map P (key' ! b)) (map P (val' ! b)) (\<lambda>h. Some (tril b h i))"
  proof (rule attend_position_fp_prefix [OF c, where n = "Suc i"])
    show "\<not> tril b h i j" if "Suc i \<le> j" for h j using that by (simp add: tril_def)
    show "take (Suc i) (map P (key ! b)) = take (Suc i) (map P (key' ! b))"
      by (simp add: take_map k)
    show "length (map P (key' ! b)) = length (map P (key ! b))" by (simp add: shape)
    show "take (Suc i) (map P (val ! b)) = take (Suc i) (map P (val' ! b))"
      by (simp add: take_map v)
    show "length (map P (val ! b)) = length (map P (key ! b))" by (simp add: lv)
    show "length (map P (val' ! b)) = length (map P (key ! b))" by (simp add: lv' shape)
    show "\<forall>j. Suc i \<le> j \<longrightarrow> j < length (map P (val ! b)) \<longrightarrow>
            list_all is_finite (map P (val ! b) ! j) \<and>
            length (map P (val ! b) ! j) = nat (num_heads self) * nat (head_dim self)"
      using fin lP by (simp add: P_def)
    show "\<forall>j. Suc i \<le> j \<longrightarrow> j < length (map P (val' ! b)) \<longrightarrow>
            list_all is_finite (map P (val' ! b) ! j) \<and>
            length (map P (val' ! b) ! j) = nat (num_heads self) * nat (head_dim self)"
      using fin' lP by (simp add: P_def)
  qed
  then have "out' ! b ! i = out ! b ! i" by (simp add: o o' q)
  with out out' show ?thesis by blast
qed

lemma doubling_ok:
  "forward_ok_fp doubling_attention seq_one seq_one seq_one"
  "forward_ok_fp doubling_attention seq_five seq_five seq_five"
  "forward_ok_fp doubling_attention seq_huge seq_huge seq_huge"
  by (simp_all add: forward_ok_fp_def doubling_attention_def doubling_linear_def unit_linear_def
        seq_one_def seq_five_def seq_huge_def is_tensor_fp_def linear_ok_def)

lemma doubling_proj:
  "linear_apply_fp ieee_ops doubling_linear [Fin 1] = [Fin 2]"
  "linear_apply_fp ieee_ops doubling_linear [Fin 5] = [Fin 10]"
  "linear_apply_fp ieee_ops doubling_linear [Fin huge] = [PosInf]"
  by (simp_all add: linear_apply_fp_def doubling_linear_def overflow_def f32_max_def huge_def)

lemma unit_proj:
  "linear_apply_fp ieee_ops unit_linear [v] = [fadd (fadd (Fin 0) (fmul v (Fin 1))) (Fin 0)]"
  by (simp add: linear_apply_fp_def unit_linear_def)

lemma softmax_scores_first: "softmax_scores [Fin x, NegInf] = Some [1, 0]"
  by (simp add: softmax_scores_def)

lemma forward_fp_doubling:
  assumes "X = [[[Fin 1], [Fin x]]]"
  shows "\<exists>out. forward_fp ieee_ops doubling_attention X X X (Some tril) = Some out \<and>
           out ! 0 ! 0 = linear_apply_fp ieee_ops unit_linear
              [foldl fadd (Fin 0)
                 [fmul (Fin 1) (Fin 2), fmul (Fin 0) (hd (linear_apply_fp ieee_ops doubling_linear [Fin x]))]]"
proof -
  have ok: "forward_ok_fp doubling_attention X X X"
    by (simp add: assms forward_ok_fp_def doubling_attention_def doubling_linear_def unit_linear_def
          is_tensor_fp_def linear_ok_def)
  have b: "(0 :: nat) < length X" and i: "0 < length (X ! 0)" by (simp_all add: assms)
  obtain out where out: "forward_fp ieee_ops doubling_attention X X X (Some tril) = Some out"
    and o: "out ! 0 ! 0 = attend_position_fp ieee_ops doubling_attention
                            (linear_apply_fp ieee_ops (query_proj doubling_attention) (X ! 0 ! 0))
                            (map (linear_apply_fp ieee_ops (query_proj doubling_attention)) (X ! 0))
                            (map (linear_apply_fp ieee_ops (query_proj doubling_attention)) (X ! 0))
                            (\<lambda>h. map_option (\<lambda>m. m 0 h 0) (Some tril))"
    using forward_fp_nth [OF ok b i, of ieee_ops "Some tril"] by blast
  obtain p where p: "linear_apply_fp ieee_ops doubling_linear [Fin x] = [p]"
    by (simp add: linear_apply_fp_def doubling_linear_def)
  have qp: "query_proj doubling_attention = doubling_linear" "fc_out doubling_attention = unit_linear"
    "nat (head_dim doubling_attention) = 1" "nat (num_heads doubling_attention) = 1"
    "scale doubling_attention = 1"
    by (simp_all add: doubling_attention_def)
  have "attend_head_fp ieee_ops doubling_attention 0 [Fin 2] [[Fin 2], [p]] [[Fin 2], [p]] (Some (tril 0 0 0))
          = [foldl fadd (Fin 0) [fmul (Fin 1) (Fin 2), fmul (Fin 0) p]]"
    by (simp add: attend_head_fp_def qp Let_def tril_def enumerate_eq_zip upt_rec overflow_def f32_max_def
          fsoftmax_def softmax_scores_first)
  then have "out ! 0 ! 0 = linear_apply_fp ieee_ops unit_linear [foldl fadd (Fin 0) [fmul (Fin 1) (Fin 2), fmul (Fin 0) p]]"
    by (simp add: o assms qp doubling_proj p attend_position_fp_def)
  with out p show ?thesis by simp
qed

theorem causal_mask_no_future_leak_witness:
  "attn_contract ieee_ops \<and>
   forward_ok_fp doubling_attention seq_one seq_one seq_one \<and>
   forward_ok_fp doubling_attention seq_five seq_five seq_five \<and>
   take (Suc 0) (seq_five ! 0) = take (Suc 0) (seq_one ! 0) \<and>
   seq_five ! 0 ! 1 \<noteq> seq_one ! 0 ! 1 \<and>
   linear_apply_fp ieee_ops (query_proj doubling_attention) (seq_one ! 0 ! 1) = [Fin 2] \<and>
   linear_apply_fp ieee_ops (query_proj doubling_attention) (seq_five ! 0 ! 1) = [Fin 10] \<and>
   (\<exists>out out'. forward_fp ieee_ops doubling_attention seq_one seq_one seq_one (Some tril) = Some out \<and>
                forward_fp ieee_ops doubling_attention seq_five seq_five seq_five (Some tril) = Some out' \<and>
                out' ! 0 ! 0 = out ! 0 ! 0)"
proof -
  have h: "(0 :: nat) < length seq_one" "0 < length (seq_one ! 0)"
    "length seq_five = length seq_one" "length (seq_five ! 0) = length (seq_one ! 0)"
    "seq_five ! 0 ! 0 = seq_one ! 0 ! 0" "take (Suc 0) (seq_five ! 0) = take (Suc 0) (seq_one ! 0)"
    "seq_five ! 0 ! 1 \<noteq> seq_one ! 0 ! 1"
    by (simp_all add: seq_one_def seq_five_def)
  have p: "linear_apply_fp ieee_ops (query_proj doubling_attention) (seq_one ! 0 ! 1) = [Fin 2]"
    "linear_apply_fp ieee_ops (query_proj doubling_attention) (seq_five ! 0 ! 1) = [Fin 10]"
    by (simp_all add: seq_one_def seq_five_def doubling_attention_def doubling_proj)
  have l: "length (seq_one ! 0) = 2" "length (seq_five ! 0) = 2"
    by (simp_all add: seq_one_def seq_five_def)
  have one: "j = 1" if "0 < j" "j < 2" for j :: nat using that by simp
  have fin2: "list_all is_finite [Fin 2]" "list_all is_finite [Fin 10]" by simp_all
  have f: "\<forall>j. 0 < j \<longrightarrow> j < length (seq_one ! 0) \<longrightarrow>
             list_all is_finite (linear_apply_fp ieee_ops (query_proj doubling_attention) (seq_one ! 0 ! j))"
    using fin2(1) one unfolding l p(1) [symmetric] by blast
  have f': "\<forall>j. 0 < j \<longrightarrow> j < length (seq_five ! 0) \<longrightarrow>
             list_all is_finite (linear_apply_fp ieee_ops (query_proj doubling_attention) (seq_five ! 0 ! j))"
    using fin2(2) one unfolding l p(2) [symmetric] by blast
  show ?thesis
    using causal_mask_no_future_leak [OF attn_contract_ieee doubling_ok(1) doubling_ok(2) h(1) h(2) h(3) h(4) h(4)
        h(5) h(6) h(6) f f']
      attn_contract_ieee doubling_ok h p by blast
qed

text \<open>
  The claim as it was stated, for any two inputs that differ at positions \<open>j > i\<close> only,
  fails in floating point.  A finite value at position 1 whose projection overflows is
  plus infinity after \<open>self.query\<close>; its attention weight at position 0 is 0, and 0 times
  infinity is not-a-number: the output at position 0 is not-a-number, and it is 2 when
  position 1 holds the value 1.
\<close>

theorem future_overflow_leak_counterexample:
  "\<exists>out out'. forward_ok_fp doubling_attention seq_one seq_one seq_one \<and>
               forward_ok_fp doubling_attention seq_huge seq_huge seq_huge \<and>
               take (Suc 0) (seq_huge ! 0) = take (Suc 0) (seq_one ! 0) \<and>
               list_all (list_all (list_all is_finite)) seq_huge \<and> huge < f32_max \<and>
               forward_fp ieee_ops doubling_attention seq_one seq_one seq_one (Some tril) = Some out \<and>
               forward_fp ieee_ops doubling_attention seq_huge seq_huge seq_huge (Some tril) = Some out' \<and>
               out ! 0 ! 0 = [Fin 2] \<and> out' ! 0 ! 0 = [NaN]"
proof -
  obtain out where o: "forward_fp ieee_ops doubling_attention seq_one seq_one seq_one (Some tril) = Some out"
    "out ! 0 ! 0 = [Fin 2]"
    using forward_fp_doubling [of seq_one 1]
    by (auto simp: seq_one_def doubling_proj unit_proj overflow_def f32_max_def)
  obtain out' where o': "forward_fp ieee_ops doubling_attention seq_huge seq_huge seq_huge (Some tril) = Some out'"
    "out' ! 0 ! 0 = [NaN]"
    using forward_fp_doubling [of seq_huge huge]
    by (auto simp: seq_huge_def doubling_proj unit_proj overflow_def f32_max_def)
  have "take (Suc 0) (seq_huge ! 0) = take (Suc 0) (seq_one ! 0)"
    "list_all (list_all (list_all is_finite)) seq_huge" "huge < f32_max"
    by (simp_all add: seq_huge_def seq_one_def huge_def f32_max_def)
  with o o' doubling_ok show ?thesis by blast
qed

end
